theory Spec2Isabelle
  imports Main
begin

section \<open>JavaScript strings and the four regular expressions of the content analysis\<close>

text \<open>
  A JavaScript string is a sequence of UTF-16 code units; the regular expressions of
  \<^verbatim>\<open>handleAnalyzeContent\<close> have no \<^verbatim>\<open>u\<close> flag, so they work on code units. A code unit is
  modelled by its number. File-system paths and messages are byte strings (\<open>string\<close>);
  \<open>js\<close> reads such a string as code units.
\<close>

type_synonym jschar = nat
type_synonym jsstring = "jschar list"

definition js :: "string \<Rightarrow> jsstring" where
  "js s = map of_char s"

text \<open>
  The regular expressions of the source use only single characters, character classes,
  a greedy star and a lazy star on a class:
  \<^verbatim>\<open>/<h[1-6][^>]*>.*?<\/h[1-6]>/g\<close>, \<^verbatim>\<open>/<p[^>]*>.*?<\/p>/g\<close>, \<^verbatim>\<open>/<img[^>]*>/g\<close>,
  \<^verbatim>\<open>/<a[^>]*>.*?<\/a>/g\<close>.
  \<open>Dot\<close> is JavaScript's \<^verbatim>\<open>.\<close> without the \<^verbatim>\<open>s\<close> flag: any code unit but the line
  terminators LF, CR, U+2028 and U+2029.
\<close>

datatype cclass = Lit jschar | Between jschar jschar | NotLit jschar | Dot

fun cmatch :: "cclass \<Rightarrow> jschar \<Rightarrow> bool" where
  "cmatch (Lit c) x = (x = c)"
| "cmatch (Between a b) x = (a \<le> x \<and> x \<le> b)"
| "cmatch (NotLit c) x = (x \<noteq> c)"
| "cmatch Dot x = (x \<noteq> 10 \<and> x \<noteq> 13 \<and> x \<noteq> 8232 \<and> x \<noteq> 8233)"

datatype item = One cclass | Star cclass | LazyStar cclass

type_synonym regex = "item list"

text \<open>
  The backtracking matcher of JavaScript, anchored at the start of the input. It returns
  the input left after the match. A greedy star first tries to take one more character and
  falls back to the rest of the pattern; a lazy star first tries the rest of the pattern
  and takes one more character only when that fails.
\<close>

fun rmatch :: "regex \<Rightarrow> jsstring \<Rightarrow> jsstring option" where
  "rmatch [] s = Some s"
| "rmatch (One c # r) [] = None"
| "rmatch (One c # r) (x # xs) = (if cmatch c x then rmatch r xs else None)"
| "rmatch (Star c # r) [] = rmatch r []"
| "rmatch (Star c # r) (x # xs) =
     (if cmatch c x
      then (case rmatch (Star c # r) xs of Some t \<Rightarrow> Some t | None \<Rightarrow> rmatch r (x # xs))
      else rmatch r (x # xs))"
| "rmatch (LazyStar c # r) [] = rmatch r []"
| "rmatch (LazyStar c # r) (x # xs) =
     (case rmatch r (x # xs) of
        Some t \<Rightarrow> Some t
      | None \<Rightarrow> if cmatch c x then rmatch (LazyStar c # r) xs else None)"

text \<open>
  \<^verbatim>\<open>content.match(re)\<close> with the \<^verbatim>\<open>g\<close> flag: the list of all matches, found from left to
  right. The search for the next match starts where the last one ended, or one code unit
  further when the last match was empty. (\<^verbatim>\<open>match\<close> returns \<^verbatim>\<open>null\<close> when there is no
  match, and the source turns it into the empty array with \<^verbatim>\<open>|| []\<close>.)
\<close>

fun match_g :: "regex \<Rightarrow> jsstring \<Rightarrow> jsstring list" where
  "match_g r [] = (case rmatch r [] of Some t \<Rightarrow> [[]] | None \<Rightarrow> [])"
| "match_g r (x # xs) =
     (case rmatch r (x # xs) of
        None \<Rightarrow> match_g r xs
      | Some t \<Rightarrow>
          if length t < length (x # xs)
          then take (length (x # xs) - length t) (x # xs) # match_g r t
          else [] # match_g r xs)"

definition lits :: "string \<Rightarrow> regex" where
  "lits s = map (\<lambda>c. One (Lit (of_char c))) s"

text \<open>Code units: \<open>49\<close> to \<open>54\<close> are the digits 1 to 6, \<open>62\<close> is \<^verbatim>\<open>>\<close>.\<close>

definition heading_re :: regex where
  "heading_re =
     lits ''<h'' @ [One (Between 49 54), Star (NotLit 62), One (Lit 62), LazyStar Dot]
     @ lits ''</h'' @ [One (Between 49 54), One (Lit 62)]"

definition paragraph_re :: regex where
  "paragraph_re = lits ''<p'' @ [Star (NotLit 62), One (Lit 62), LazyStar Dot] @ lits ''</p>''"

definition image_re :: regex where
  "image_re = lits ''<img'' @ [Star (NotLit 62), One (Lit 62)]"

definition link_re :: regex where
  "link_re = lits ''<a'' @ [Star (NotLit 62), One (Lit 62), LazyStar Dot] @ lits ''</a>''"

record analysis =
  headings :: nat
  paragraphs :: nat
  images :: nat
  links :: nat

text \<open>The object literal \<^verbatim>\<open>analysis\<close> of \<^verbatim>\<open>handleAnalyzeContent\<close> (index.ts, lines 188 to 193).\<close>

definition analyzeContent :: "jsstring \<Rightarrow> analysis" where
  "analyzeContent content =
     \<lparr> headings = length (match_g heading_re content),
       paragraphs = length (match_g paragraph_re content),
       images = length (match_g image_re content),
       links = length (match_g link_re content) \<rparr>"

subsection \<open>What a match is, without the matcher\<close>

text \<open>
  \<open>accepts r w\<close>: the whole word \<open>w\<close> belongs to the language of \<open>r\<close> (both stars denote
  any number of repetitions; which repetition the matcher prefers plays no role here).
\<close>

fun accepts :: "regex \<Rightarrow> jsstring \<Rightarrow> bool" where
  "accepts [] w = (w = [])"
| "accepts (One c # r) [] = False"
| "accepts (One c # r) (x # xs) = (cmatch c x \<and> accepts r xs)"
| "accepts (Star c # r) [] = accepts r []"
| "accepts (Star c # r) (x # xs) = (accepts r (x # xs) \<or> cmatch c x \<and> accepts (Star c # r) xs)"
| "accepts (LazyStar c # r) [] = accepts r []"
| "accepts (LazyStar c # r) (x # xs) =
     (accepts r (x # xs) \<or> cmatch c x \<and> accepts (LazyStar c # r) xs)"

text \<open>
  \<open>shortest_match r s w\<close>: \<open>w\<close> is the shortest start of \<open>s\<close> that the pattern accepts.
  \<open>scan r s ms\<close>: \<open>ms\<close> are the non-overlapping matches of \<open>r\<close> in \<open>s\<close> read from left to
  right: a position where no match starts is skipped, and after a match the reading goes
  on behind it.
\<close>

definition shortest_match :: "regex \<Rightarrow> jsstring \<Rightarrow> jsstring \<Rightarrow> bool" where
  "shortest_match r s w =
     (accepts r w \<and> (\<exists>t. s = w @ t) \<and>
      (\<forall>w' t'. s = w' @ t' \<and> accepts r w' \<longrightarrow> length w \<le> length w'))"

inductive scan :: "regex \<Rightarrow> jsstring \<Rightarrow> jsstring list \<Rightarrow> bool" for r where
  scan_end: "scan r [] []"
| scan_skip: "(\<forall>w t. x # xs = w @ t \<longrightarrow> \<not> accepts r w) \<Longrightarrow> scan r xs ms \<Longrightarrow> scan r (x # xs) ms"
| scan_hit: "w \<noteq> [] \<Longrightarrow> shortest_match r (w @ t) w \<Longrightarrow> scan r t ms \<Longrightarrow> scan r (w @ t) (w # ms)"

text \<open>
  A syntactic class of patterns on which the backtracking matcher finds the shortest match:
  a greedy star is followed by a single character outside its class (so its extent is
  forced), and a lazy star is followed by single characters only.
\<close>

fun excludes :: "cclass \<Rightarrow> cclass \<Rightarrow> bool" where
  "excludes (NotLit a) (Lit b) = (a = b)"
| "excludes _ _ = False"

fun fixed_width :: "regex \<Rightarrow> bool" where
  "fixed_width [] = True"
| "fixed_width (One c # r) = fixed_width r"
| "fixed_width _ = False"

fun shortest_first :: "regex \<Rightarrow> bool" where
  "shortest_first [] = True"
| "shortest_first (One c # r) = shortest_first r"
| "shortest_first (Star c # One d # r) = (excludes c d \<and> shortest_first (One d # r))"
| "shortest_first (Star c # r) = False"
| "shortest_first (LazyStar c # r) = fixed_width r"

subsection \<open>The heading pattern as the specification words it\<close>

text \<open>
  The specification's heading: an open tag of level \<open>d\<close>, content, and the close tag of the
  same level \<open>d\<close>. \<open>same_level_match\<close> tries the six levels at one position, and
  \<open>same_level_headings\<close> counts the non-overlapping matches as \<open>match_g\<close> does.
\<close>

definition heading_level_re :: "jschar \<Rightarrow> regex" where
  "heading_level_re d =
     lits ''<h'' @ [One (Lit d), Star (NotLit 62), One (Lit 62), LazyStar Dot]
     @ lits ''</h'' @ [One (Lit d), One (Lit 62)]"

fun first_level :: "jschar list \<Rightarrow> jsstring \<Rightarrow> jsstring option" where
  "first_level [] s = None"
| "first_level (d # ds) s =
     (case rmatch (heading_level_re d) s of Some t \<Rightarrow> Some t | None \<Rightarrow> first_level ds s)"

definition same_level_match :: "jsstring \<Rightarrow> jsstring option" where
  "same_level_match s = first_level [49, 50, 51, 52, 53, 54] s"

fun same_level_headings :: "jsstring \<Rightarrow> nat" where
  "same_level_headings [] = 0"
| "same_level_headings (x # xs) =
     (case same_level_match (x # xs) of
        None \<Rightarrow> same_level_headings xs
      | Some t \<Rightarrow>
          if length t < length (x # xs) then Suc (same_level_headings t)
          else same_level_headings xs)"

section \<open>Values, paths and text\<close>

text \<open>
  The arguments of a tool call are a JSON object: a mapping from names to values. A name
  that is absent reads as \<^verbatim>\<open>undefined\<close>, and a destructuring default applies exactly then.
  JSON numbers are modelled by integers.
\<close>

type_synonym path = string

datatype jsval = JUndefined | JNull | JBool bool | JNum int | JStr string | JObject

type_synonym args = "string \<rightharpoonup> jsval"

definition arg :: "args \<Rightarrow> string \<Rightarrow> jsval" where
  "arg a k = (case a k of None \<Rightarrow> JUndefined | Some v \<Rightarrow> v)"

definition with_default :: "jsval \<Rightarrow> jsval \<Rightarrow> jsval" where
  "with_default v d = (if v = JUndefined then d else v)"

function show_nat :: "nat \<Rightarrow> string" where
  "show_nat n =
     (if n < 10 then [''0123456789'' ! n]
      else show_nat (n div 10) @ [''0123456789'' ! (n mod 10)])"
  by pat_completeness auto
termination
  by (relation "measure id") auto

declare show_nat.simps [simp del]

text \<open>The text a template literal \<^verbatim>\<open>`${v}`\<close> gives for a value.\<close>

fun js_toString :: "jsval \<Rightarrow> string" where
  "js_toString JUndefined = ''undefined''"
| "js_toString JNull = ''null''"
| "js_toString (JBool b) = (if b then ''true'' else ''false'')"
| "js_toString (JNum n) = (if n < 0 then CHR ''-'' # show_nat (nat (- n)) else show_nat (nat n))"
| "js_toString (JStr s) = s"
| "js_toString JObject = ''[object Object]''"

text \<open>
  \<^verbatim>\<open>s.replace(pat, rep)\<close> with a string pattern replaces the first occurrence of \<open>pat\<close>
  only (the replacement \<^verbatim>\<open>'.css'\<close> of the source holds no \<^verbatim>\<open>$\<close> pattern).
\<close>

fun replace_first :: "string \<Rightarrow> string \<Rightarrow> string \<Rightarrow> string" where
  "replace_first pat rep [] = (if pat = [] then rep else [])"
| "replace_first pat rep (c # cs) =
     (if take (length pat) (c # cs) = pat then rep @ drop (length pat) (c # cs)
      else c # replace_first pat rep cs)"

text \<open>
  The functions of Node's \<^verbatim>\<open>path\<close> module the source calls, for POSIX paths (the directory
  the source hard-codes is a POSIX path). They belong to the runtime, not to the
  repository, and follow the documentation of Node: \<^verbatim>\<open>dirname\<close> and \<^verbatim>\<open>basename\<close> ignore
  trailing separators, \<^verbatim>\<open>basename(p, ext)\<close> drops \<open>ext\<close> from the end of the last
  component unless the component is \<open>ext\<close> itself, and \<^verbatim>\<open>join\<close> joins the non-empty
  parts by \<^verbatim>\<open>/\<close> and normalises the result (\<^verbatim>\<open>.\<close> and empty components disappear and
  \<^verbatim>\<open>..\<close> removes the component before it).
  \<^verbatim>\<open>basename(p, ext)\<close> compares the last component with \<open>ext\<close> from the end; when the
  component runs out before \<open>ext\<close> does (the component is a proper end of \<open>ext\<close>, or the
  path has separators only), Node returns the component together with the separators that
  follow it: \<^verbatim>\<open>basename('/site/tml/', '.html')\<close> is \<^verbatim>\<open>'tml/'\<close>.
\<close>

definition path_basename :: "path \<Rightarrow> string" where
  "path_basename p =
     rev (takeWhile (\<lambda>c. c \<noteq> CHR ''/'') (dropWhile (\<lambda>c. c = CHR ''/'') (rev p)))"

definition ends_with :: "string \<Rightarrow> string \<Rightarrow> bool" where
  "ends_with s e = (length e \<le> length s \<and> drop (length s - length e) s = e)"

definition path_basename_ext :: "path \<Rightarrow> string \<Rightarrow> string" where
  "path_basename_ext p ext =
     (let b = path_basename p in
      if ext = [] \<or> length p < length ext then b
      else if p = ext then []
      else if b = ext then b
      else if ends_with b ext then take (length b - length ext) b
      else if ends_with ext b then b @ takeWhile (\<lambda>c. c = CHR ''/'') (rev p)
      else b)"

definition path_dirname :: "path \<Rightarrow> path" where
  "path_dirname p =
     (if p = [] then ''.''
      else
        let hasRoot = (hd p = CHR ''/'');
            r = dropWhile (\<lambda>c. c \<noteq> CHR ''/'') (dropWhile (\<lambda>c. c = CHR ''/'') (rev (tl p)))
        in if r = [] then (if hasRoot then ''/'' else ''.'')
           else if hasRoot \<and> length r = 1 then ''//''
           else take (length r) p)"

fun split_slash :: "string \<Rightarrow> string list" where
  "split_slash [] = [[]]"
| "split_slash (c # cs) =
     (if c = CHR ''/'' then [] # split_slash cs
      else (case split_slash cs of [] \<Rightarrow> [[c]] | s # ss \<Rightarrow> (c # s) # ss))"

fun join_slash :: "string list \<Rightarrow> string" where
  "join_slash [] = []"
| "join_slash [s] = s"
| "join_slash (s # ss) = s @ CHR ''/'' # join_slash ss"

text \<open>
  Normalisation of the components: \<open>res\<close> holds the components kept so far;
  \<open>climb\<close> tells whether \<^verbatim>\<open>..\<close> may climb above the start (a relative path).
\<close>

fun norm_segments :: "bool \<Rightarrow> string list \<Rightarrow> string list \<Rightarrow> string list" where
  "norm_segments climb res [] = res"
| "norm_segments climb res (s # ss) =
     (if s = [] \<or> s = ''.'' then norm_segments climb res ss
      else if s = ''..'' then
        (if res \<noteq> [] \<and> last res \<noteq> ''..'' then norm_segments climb (butlast res) ss
         else if climb then norm_segments climb (res @ [''..'']) ss
         else norm_segments climb res ss)
      else norm_segments climb (res @ [s]) ss)"

definition path_normalize :: "path \<Rightarrow> path" where
  "path_normalize p =
     (if p = [] then ''.''
      else
        let isAbsolute = (hd p = CHR ''/'');
            trailing = (last p = CHR ''/'');
            q = join_slash (norm_segments (\<not> isAbsolute) [] (split_slash p))
        in if q = [] then (if isAbsolute then ''/'' else if trailing then ''./'' else ''.'')
           else (if isAbsolute then ''/'' else []) @ q @ (if trailing then ''/'' else []))"

definition path_join :: "string list \<Rightarrow> path" where
  "path_join parts =
     (let joined = join_slash (filter (\<lambda>a. a \<noteq> []) parts)
      in if joined = [] then ''.'' else path_normalize joined)"

text \<open>The paths \<^verbatim>\<open>handlePreviewFile\<close> derives from \<^verbatim>\<open>filePath\<close> (index.ts, lines 127 to 129,
  149, 155 and 156).\<close>

definition mainCssPath :: "path \<Rightarrow> path" where
  "mainCssPath filePath = path_join [path_dirname filePath, ''..'', ''style.css'']"

definition pageCssPath :: "path \<Rightarrow> path" where
  "pageCssPath filePath =
     path_join [path_dirname filePath, replace_first ''.html'' ''.css'' (path_basename filePath)]"

definition screenshotsDir :: path where
  "screenshotsDir =
     path_join [''/Users/seanivore/Documents/Cline/MCP/mcp-file-preview'', ''screenshots'']"

definition screenshotName :: "path \<Rightarrow> nat \<Rightarrow> string" where
  "screenshotName filePath now =
     path_basename_ext filePath ''.html'' @ ''_'' @ show_nat now @ ''.png''"

definition screenshotPath :: "path \<Rightarrow> nat \<Rightarrow> path" where
  "screenshotPath filePath now = path_join [screenshotsDir, screenshotName filePath now]"

text \<open>
  The per-page stylesheet as the specification words it: the target with its
  \<^verbatim>\<open>.html\<close> extension replaced by \<^verbatim>\<open>.css\<close>, in the same directory.
\<close>

definition spec_pageCssPath :: "path \<Rightarrow> path" where
  "spec_pageCssPath filePath =
     path_join [path_dirname filePath, path_basename_ext filePath ''.html'' @ ''.css'']"

text \<open>\<^verbatim>\<open>JSON.stringify(analysis, null, 2)\<close>; code unit \<open>34\<close> is the double quote, \<open>10\<close> the
  line feed.\<close>

definition json_field :: "string \<Rightarrow> nat \<Rightarrow> jsstring" where
  "json_field k n = js ''  '' @ [34] @ js k @ [34] @ js '': '' @ js (show_nat n)"

definition json_stringify :: "analysis \<Rightarrow> jsstring" where
  "json_stringify a =
     js ''{'' @ [10] @ json_field ''headings'' (headings a) @ js '','' @ [10]
     @ json_field ''paragraphs'' (paragraphs a) @ js '','' @ [10]
     @ json_field ''images'' (images a) @ js '','' @ [10]
     @ json_field ''links'' (links a) @ [10] @ js ''}''"

section \<open>The file system, the browser engine and the server object\<close>

text \<open>
  The program talks to three collaborators: Node's \<^verbatim>\<open>fs\<close> module, the puppeteer browser
  engine, and the MCP server library. Every call to one of the first two is recorded, in
  program order, in the field \<open>calls\<close> of the state, so that ``before any file-system
  access'' and ``no page was created'' are statements about this list.
\<close>

datatype node = File jsstring | Directory

datatype call =
    FsExistsSync jsval
  | FsReadFileSync path
  | FsMkdirSync path
  | PuppeteerLaunch
  | BrowserNewPage nat
  | PageSetViewport nat jsval jsval
  | PageSetBypassCSP nat
  | PageSetExtraHTTPHeaders nat
  | PageGoto nat string
  | PageAddStyleTag nat jsstring
  | PageEvaluate nat
  | PageScreenshot nat path
  | PageContent nat
  | PageClose nat

datatype errcode = InvalidRequest | MethodNotFound

datatype fscode = ENOENT | EISDIR | ENOTDIR | EEXIST

datatype error =
    McpError errcode string
  | FsError fscode path
  | PuppeteerError call
  | TypeError string

text \<open>
  The state: the file system (a map from the path handed to \<^verbatim>\<open>fs\<close> to what is there),
  the field \<^verbatim>\<open>this.browser\<close> of the server object, the engines launched so far (nothing
  but the SIGINT handler closes one), the pages that are open, a counter for fresh
  handles, and the calls made so far.
\<close>

record world =
  files :: "path \<rightharpoonup> node"
  this_browser :: "nat option"
  engines :: "nat list"
  open_pages :: "nat list"
  next_handle :: nat
  calls :: "call list"

text \<open>
  What the program cannot decide: which calls to the engine are rejected (a launch that
  fails, a navigation that times out, a viewport the engine refuses), the clock, the
  markup the page renders to, and the bytes of the image.
\<close>

record env =
  rejects :: "call \<Rightarrow> bool"
  clock :: nat
  rendered :: jsstring
  screenshot_data :: jsstring

type_synonym 'a action = "world \<Rightarrow> (error + 'a) \<times> world"

definition record_call :: "call \<Rightarrow> world \<Rightarrow> world" where
  "record_call c w = w\<lparr>calls := calls w @ [c]\<rparr>"

text \<open>Sequencing of two steps: an exception of the first skips the second.\<close>

definition and_then :: "'a action \<Rightarrow> ('a \<Rightarrow> 'b action) \<Rightarrow> 'b action" where
  "and_then m f w = (case m w of (Inl e, w') \<Rightarrow> (Inl e, w') | (Inr x, w') \<Rightarrow> f x w')"

definition return :: "'a \<Rightarrow> 'a action" where
  "return x w = (Inr x, w)"

text \<open>
  \<^verbatim>\<open>try { body } finally { cleanup }\<close>: the cleanup runs whatever the body did; when the
  cleanup throws, its exception replaces the outcome of the body.
\<close>

definition try_finally :: "'a action \<Rightarrow> unit action \<Rightarrow> 'a action" where
  "try_finally body cleanup w =
     (case body w of
        (r, w') \<Rightarrow> (case cleanup w' of (Inl e, w'') \<Rightarrow> (Inl e, w'') | (Inr u, w'') \<Rightarrow> (r, w'')))"

subsection \<open>The \<^verbatim>\<open>fs\<close> module\<close>

text \<open>
  \<^verbatim>\<open>fs.existsSync\<close> never throws: it is false for a value that is not a path.
  \<^verbatim>\<open>fs.readFileSync(p, 'utf-8')\<close> throws \<^verbatim>\<open>ENOENT\<close> when nothing is at \<open>p\<close> and \<^verbatim>\<open>EISDIR\<close>
  when a directory is; the file system holds the decoded text of a file.
  \<^verbatim>\<open>fs.mkdirSync(p, {recursive: true})\<close> creates the missing directories on the way to
  \<open>p\<close>, from the top; when a file is in the way, its error names the path \<open>p\<close> it was
  given.
\<close>

definition fs_existsSync :: "jsval \<Rightarrow> world \<Rightarrow> bool \<times> world" where
  "fs_existsSync v w =
     ((case v of JStr p \<Rightarrow> files w p \<noteq> None | _ \<Rightarrow> False), record_call (FsExistsSync v) w)"

definition fs_readFileSync :: "path \<Rightarrow> jsstring action" where
  "fs_readFileSync p w =
     ((case files w p of
         None \<Rightarrow> Inl (FsError ENOENT p)
       | Some Directory \<Rightarrow> Inl (FsError EISDIR p)
       | Some (File c) \<Rightarrow> Inr c),
      record_call (FsReadFileSync p) w)"

definition dirs_to :: "path \<Rightarrow> path list" where
  "dirs_to p = map (\<lambda>i. take i p) (filter (\<lambda>i. p ! i = CHR ''/'') [1..<length p]) @ [p]"

fun mkdir_chain ::
  "path \<Rightarrow> path list \<Rightarrow> (path \<rightharpoonup> node) \<Rightarrow> error option \<times> (path \<rightharpoonup> node)" where
  "mkdir_chain p [] fs = (None, fs)"
| "mkdir_chain p (d # ds) fs =
     (case fs d of
        None \<Rightarrow> mkdir_chain p ds (fs(d \<mapsto> Directory))
      | Some Directory \<Rightarrow> mkdir_chain p ds fs
      | Some (File c) \<Rightarrow> (Some (FsError (if ds = [] then EEXIST else ENOTDIR) p), fs))"

definition fs_mkdirSync_recursive :: "path \<Rightarrow> unit action" where
  "fs_mkdirSync_recursive p w =
     (case mkdir_chain p (dirs_to p) (files w) of
        (None, fs) \<Rightarrow> (Inr (), record_call (FsMkdirSync p) (w\<lparr>files := fs\<rparr>))
      | (Some e, fs) \<Rightarrow> (Inl e, record_call (FsMkdirSync p) (w\<lparr>files := fs\<rparr>)))"

subsection \<open>The browser engine\<close>

text \<open>
  A call the engine rejects changes nothing but the list of calls. A launch that succeeds
  starts a new engine, \<^verbatim>\<open>newPage\<close> opens a new page, \<^verbatim>\<open>page.screenshot\<close> with a path
  writes the image file, \<^verbatim>\<open>page.close\<close> closes the page.
\<close>

definition launch_settle :: "env \<Rightarrow> nat action" where
  "launch_settle e w =
     (if rejects e PuppeteerLaunch then (Inl (PuppeteerError PuppeteerLaunch), w)
      else (Inr (next_handle w),
            w\<lparr>engines := engines w @ [next_handle w], next_handle := Suc (next_handle w)\<rparr>))"

definition puppeteer_launch :: "env \<Rightarrow> nat action" where
  "puppeteer_launch e w = launch_settle e (record_call PuppeteerLaunch w)"

definition browser_newPage :: "env \<Rightarrow> nat \<Rightarrow> nat action" where
  "browser_newPage e b w =
     (let w1 = record_call (BrowserNewPage b) w in
      if rejects e (BrowserNewPage b) then (Inl (PuppeteerError (BrowserNewPage b)), w1)
      else (Inr (next_handle w1),
            w1\<lparr>open_pages := open_pages w1 @ [next_handle w1],
               next_handle := Suc (next_handle w1)\<rparr>))"

definition page_call :: "env \<Rightarrow> call \<Rightarrow> unit action" where
  "page_call e c w =
     (if rejects e c then Inl (PuppeteerError c) else Inr (), record_call c w)"

definition page_screenshot :: "env \<Rightarrow> nat \<Rightarrow> path \<Rightarrow> unit action" where
  "page_screenshot e pg p w =
     (let w1 = record_call (PageScreenshot pg p) w in
      if rejects e (PageScreenshot pg p) then (Inl (PuppeteerError (PageScreenshot pg p)), w1)
      else (Inr (), w1\<lparr>files := (files w1)(p \<mapsto> File (screenshot_data e))\<rparr>))"

definition page_content :: "env \<Rightarrow> nat \<Rightarrow> jsstring action" where
  "page_content e pg w =
     (if rejects e (PageContent pg) then Inl (PuppeteerError (PageContent pg))
      else Inr (rendered e), record_call (PageContent pg) w)"

definition page_close :: "env \<Rightarrow> nat \<Rightarrow> unit action" where
  "page_close e pg w =
     (let w1 = record_call (PageClose pg) w in
      if rejects e (PageClose pg) then (Inl (PuppeteerError (PageClose pg)), w1)
      else (Inr (), w1\<lparr>open_pages := filter (\<lambda>q. q \<noteq> pg) (open_pages w1)\<rparr>))"

section \<open>The server\<close>

subsection \<open>\<^verbatim>\<open>initBrowser\<close> (index.ts, lines 35 to 40)\<close>

text \<open>
  \<^verbatim>\<open>initBrowser\<close> is an \<^verbatim>\<open>async\<close> function with one suspension point, the
  \<^verbatim>\<open>await puppeteer.launch()\<close>. \<open>initBrowser_begin\<close> is the part before it (the test of
  \<^verbatim>\<open>this.browser\<close> and the call of \<^verbatim>\<open>launch\<close>), \<open>initBrowser_resume\<close> the part after it
  (the launch has settled; the handle is stored in \<^verbatim>\<open>this.browser\<close> and returned). A
  call that runs alone is the two parts one after the other: \<open>initBrowser\<close>.
\<close>

datatype acquire = NotStarted | AwaitingLaunch | Returned "error + nat"

definition initBrowser_begin :: "world \<Rightarrow> acquire \<times> world" where
  "initBrowser_begin w =
     (case this_browser w of
        None \<Rightarrow> (AwaitingLaunch, record_call PuppeteerLaunch w)
      | Some b \<Rightarrow> (Returned (Inr b), w))"

definition initBrowser_resume :: "env \<Rightarrow> world \<Rightarrow> acquire \<times> world" where
  "initBrowser_resume e w =
     (case launch_settle e w of
        (Inl err, w1) \<Rightarrow> (Returned (Inl err), w1)
      | (Inr b, w1) \<Rightarrow> (Returned (Inr b), w1\<lparr>this_browser := Some b\<rparr>))"

definition initBrowser :: "env \<Rightarrow> nat action" where
  "initBrowser e w =
     (case this_browser w of
        None \<Rightarrow>
          (case puppeteer_launch e w of
             (Inl err, w1) \<Rightarrow> (Inl err, w1)
           | (Inr b, w1) \<Rightarrow> (Inr b, w1\<lparr>this_browser := Some b\<rparr>))
      | Some b \<Rightarrow> (Inr b, w))"

text \<open>
  Calls that overlap: each call to \<^verbatim>\<open>initBrowser\<close> stands at one of three points, and a
  schedule names, step by step, the call that runs next up to its next suspension point.
\<close>

fun acquire_step :: "env \<Rightarrow> acquire \<Rightarrow> world \<Rightarrow> acquire \<times> world" where
  "acquire_step e NotStarted w = initBrowser_begin w"
| "acquire_step e AwaitingLaunch w = initBrowser_resume e w"
| "acquire_step e (Returned r) w = (Returned r, w)"

fun run_schedule :: "env \<Rightarrow> nat list \<Rightarrow> acquire list \<times> world \<Rightarrow> acquire list \<times> world" where
  "run_schedule e [] (ts, w) = (ts, w)"
| "run_schedule e (i # sched) (ts, w) =
     (if i < length ts
      then (case acquire_step e (ts ! i) w of (t, w') \<Rightarrow> run_schedule e sched (ts[i := t], w'))
      else run_schedule e sched (ts, w))"

subsection \<open>\<^verbatim>\<open>handlePreviewFile\<close> (index.ts, lines 101 to 176)\<close>

datatype content_block = TextBlock jsstring

type_synonym response = "content_block list"

definition preview_text :: "path \<Rightarrow> jsstring \<Rightarrow> jsstring" where
  "preview_text shot content =
     js ''Screenshot saved to: '' @ js shot @ [10, 10] @ js ''HTML Content:'' @ [10] @ content"

text \<open>The body of the \<^verbatim>\<open>try\<close> block (lines 113 to 172). The one-second delay of line 146
  is time only and leaves no trace in the state.\<close>

definition preview_body :: "env \<Rightarrow> path \<Rightarrow> nat \<Rightarrow> response action" where
  "preview_body e filePath page =
     and_then (page_call e (PageSetBypassCSP page)) (\<lambda>_.
     and_then (page_call e (PageSetExtraHTTPHeaders page)) (\<lambda>_.
     and_then (page_call e (PageGoto page (''file://'' @ filePath))) (\<lambda>_.
     and_then (fs_readFileSync (mainCssPath filePath)) (\<lambda>mainCss.
     and_then (fs_readFileSync (pageCssPath filePath)) (\<lambda>pageCss.
     and_then (page_call e (PageAddStyleTag page mainCss)) (\<lambda>_.
     and_then (page_call e (PageAddStyleTag page pageCss)) (\<lambda>_.
     and_then (page_call e (PageEvaluate page)) (\<lambda>_.
     and_then (\<lambda>w. case fs_existsSync (JStr screenshotsDir) w of
                      (ex, w1) \<Rightarrow> if ex then (Inr (), w1)
                                  else fs_mkdirSync_recursive screenshotsDir w1) (\<lambda>_.
     and_then (page_screenshot e page (screenshotPath filePath (clock e))) (\<lambda>_.
     and_then (page_content e page) (\<lambda>content.
     return [TextBlock (preview_text (screenshotPath filePath (clock e)) content)])))))))))))"

text \<open>
  The handler. Destructuring \<^verbatim>\<open>args\<close> throws a \<^verbatim>\<open>TypeError\<close> when the request has no
  arguments at all. A value that passes \<^verbatim>\<open>fs.existsSync\<close> is a string, so the last case
  of the distinction on \<open>filePath\<close> is never taken.
\<close>

definition handlePreviewFile :: "env \<Rightarrow> args option \<Rightarrow> response action" where
  "handlePreviewFile e ao w =
     (case ao of
        None \<Rightarrow> (Inl (TypeError ''Cannot destructure property filePath of args''), w)
      | Some a \<Rightarrow>
          let filePath = arg a ''filePath'';
              width = with_default (arg a ''width'') (JNum 1024);
              height = with_default (arg a ''height'') (JNum 768)
          in (case fs_existsSync filePath w of
                (ex, w1) \<Rightarrow>
                  if \<not> ex
                  then (Inl (McpError InvalidRequest (''File not found: '' @ js_toString filePath)),
                        w1)
                  else (case filePath of
                          JStr fp \<Rightarrow>
                            and_then (initBrowser e) (\<lambda>browser.
                            and_then (browser_newPage e browser) (\<lambda>page.
                            and_then (page_call e (PageSetViewport page width height)) (\<lambda>_.
                            try_finally (preview_body e fp page) (page_close e page)))) w1
                        | _ \<Rightarrow> (Inl (TypeError ''path must be a string''), w1))))"

subsection \<open>\<^verbatim>\<open>handleAnalyzeContent\<close> (index.ts, lines 178 to 203)\<close>

definition handleAnalyzeContent :: "args option \<Rightarrow> response action" where
  "handleAnalyzeContent ao w =
     (case ao of
        None \<Rightarrow> (Inl (TypeError ''Cannot destructure property filePath of args''), w)
      | Some a \<Rightarrow>
          let filePath = arg a ''filePath''
          in (case fs_existsSync filePath w of
                (ex, w1) \<Rightarrow>
                  if \<not> ex
                  then (Inl (McpError InvalidRequest (''File not found: '' @ js_toString filePath)),
                        w1)
                  else (case filePath of
                          JStr fp \<Rightarrow>
                            and_then (fs_readFileSync fp) (\<lambda>content.
                            return [TextBlock (json_stringify (analyzeContent content))]) w1
                        | _ \<Rightarrow> (Inl (TypeError ''path must be a string''), w1))))"

subsection \<open>The dispatcher (index.ts, lines 86 to 98)\<close>

definition callTool :: "env \<Rightarrow> string \<Rightarrow> args option \<Rightarrow> response action" where
  "callTool e name ao w =
     (if name = ''preview_file'' then handlePreviewFile e ao w
      else if name = ''analyze_content'' then handleAnalyzeContent ao w
      else (Inl (McpError MethodNotFound (''Unknown tool: '' @ name)), w))"

section \<open>Vocabulary of the properties\<close>

text \<open>
  The calls that write to the file system, and the calls of the \<^verbatim>\<open>fs\<close> module that only
  read. \<open>new_calls w w'\<close> are the calls made between the states \<open>w\<close> and \<open>w'\<close>.
\<close>

fun is_write :: "call \<Rightarrow> bool" where
  "is_write (FsMkdirSync p) = True"
| "is_write (PageScreenshot pg p) = True"
| "is_write _ = False"

fun is_fs_read :: "call \<Rightarrow> bool" where
  "is_fs_read (FsExistsSync v) = True"
| "is_fs_read (FsReadFileSync p) = True"
| "is_fs_read _ = False"

definition new_calls :: "world \<Rightarrow> world \<Rightarrow> call list" where
  "new_calls w w' = drop (length (calls w)) (calls w')"

text \<open>\<open>same_target ao v w\<close>: the file the arguments name is the same in \<open>v\<close> and in \<open>w\<close>.\<close>

definition same_target :: "args option \<Rightarrow> world \<Rightarrow> world \<Rightarrow> bool" where
  "same_target ao v w =
     (case ao of
        None \<Rightarrow> True
      | Some a \<Rightarrow> (case arg a ''filePath'' of JStr p \<Rightarrow> files v p = files w p | _ \<Rightarrow> True))"

text \<open>
  The error kinds of the specification, read on the errors of the code. The code has one
  error for a path that does not exist, \<^verbatim>\<open>McpError(InvalidRequest, "File not found: ...")\<close>;
  an engine error is a rejected call of puppeteer; a read error is an error of
  \<^verbatim>\<open>fs\<close>; a style resource error is a read error at the shared stylesheet or at the
  stylesheet of the page, the target with its extension replaced.
\<close>

fun engine_or_read_error :: "error \<Rightarrow> bool" where
  "engine_or_read_error (PuppeteerError c) = True"
| "engine_or_read_error (FsError c p) = True"
| "engine_or_read_error _ = False"


text \<open>
  The engine calls whose rejection comes before the stylesheets are read, or replaces the
  error of the \<^verbatim>\<open>try\<close> block (the \<^verbatim>\<open>page.close()\<close> of the \<^verbatim>\<open>finally\<close> block).
\<close>

fun preempts_style_error :: "call \<Rightarrow> bool" where
  "preempts_style_error PuppeteerLaunch = True"
| "preempts_style_error (BrowserNewPage b) = True"
| "preempts_style_error (PageSetViewport pg x y) = True"
| "preempts_style_error (PageSetBypassCSP pg) = True"
| "preempts_style_error (PageSetExtraHTTPHeaders pg) = True"
| "preempts_style_error (PageGoto pg u) = True"
| "preempts_style_error (PageClose pg) = True"
| "preempts_style_error _ = False"

text \<open>
  An error thrown up to the reading of the stylesheets: a rejected engine call up to the
  navigation, a rejected \<^verbatim>\<open>page.close()\<close>, or a read error. \<open>is_file n\<close>: the entry \<open>n\<close> of
  the file system is a regular file.
\<close>

fun navigation_or_read_error :: "error \<Rightarrow> bool" where
  "navigation_or_read_error (PuppeteerError c) = preempts_style_error c"
| "navigation_or_read_error (FsError c p) = True"
| "navigation_or_read_error _ = False"

fun is_file :: "node option \<Rightarrow> bool" where
  "is_file (Some (File c)) = True"
| "is_file _ = False"

text \<open>
  \<open>quiet w w'\<close>: between \<open>w\<close> and \<open>w'\<close> the file system did not change and no writing call
  was made. \<open>writes w w' ws\<close>: the writing calls made between \<open>w\<close> and \<open>w'\<close> are \<open>ws\<close>.
  \<open>quiet_on F m\<close>: from a file system \<open>F\<close>, the step \<open>m\<close> is quiet. \<open>fails_quietly F m\<close>:
  from \<open>F\<close>, the step \<open>m\<close> throws an error of the kind above, and is quiet.
  \<open>errs P m\<close>: every error of \<open>m\<close> is a \<open>P\<close>.
\<close>

definition quiet :: "world \<Rightarrow> world \<Rightarrow> bool" where
  "quiet w w' =
     (files w' = files w \<and> calls w' = calls w @ new_calls w w' \<and>
      filter is_write (new_calls w w') = [])"

definition writes :: "world \<Rightarrow> world \<Rightarrow> call list \<Rightarrow> bool" where
  "writes w w' ws =
     (calls w' = calls w @ new_calls w w' \<and> filter is_write (new_calls w w') = ws)"

definition quiet_on :: "(path \<rightharpoonup> node) \<Rightarrow> 'a action \<Rightarrow> bool" where
  "quiet_on F m = (\<forall>w r w'. files w = F \<longrightarrow> m w = (r, w') \<longrightarrow> quiet w w')"

definition fails_quietly :: "(path \<rightharpoonup> node) \<Rightarrow> 'a action \<Rightarrow> bool" where
  "fails_quietly F m =
     (\<forall>w. files w = F \<longrightarrow>
        (\<exists>err w'. m w = (Inl err, w') \<and> navigation_or_read_error err \<and> quiet w w'))"

definition errs :: "(error \<Rightarrow> bool) \<Rightarrow> 'a action \<Rightarrow> bool" where
  "errs P m = (\<forall>w err w'. m w = (Inl err, w') \<longrightarrow> P err)"

text \<open>What \<^verbatim>\<open>handlePreviewFile\<close> does once the existence check has passed (lines 108 to
  175).\<close>

definition preview_pipeline :: "env \<Rightarrow> args \<Rightarrow> path \<Rightarrow> response action" where
  "preview_pipeline e a p =
     and_then (initBrowser e) (\<lambda>browser.
     and_then (browser_newPage e browser) (\<lambda>page.
     and_then (page_call e (PageSetViewport page (with_default (arg a ''width'') (JNum 1024))
                 (with_default (arg a ''height'') (JNum 768)))) (\<lambda>_.
     try_finally (preview_body e p page) (page_close e page))))"

text \<open>A path component that is a name: not empty, not \<^verbatim>\<open>.\<close> or \<^verbatim>\<open>..\<close>, and without a
  separator.\<close>

definition ordinary :: "string \<Rightarrow> bool" where
  "ordinary n = (n \<noteq> [] \<and> n \<noteq> ''.'' \<and> n \<noteq> ''..'' \<and> CHR ''/'' \<notin> set n)"

text \<open>\<open>last_part s\<close> is what follows the last separator of \<open>s\<close>.\<close>

definition last_part :: "string \<Rightarrow> string" where
  "last_part s = rev (takeWhile (\<lambda>c. c \<noteq> CHR ''/'') (rev s))"

text \<open>
  \<open>match_count r s n\<close>: the input \<open>s\<close> has a reading into non-overlapping matches of \<open>r\<close>,
  and every such reading has \<open>n\<close> matches.
\<close>

definition match_count :: "regex \<Rightarrow> jsstring \<Rightarrow> nat \<Rightarrow> bool" where
  "match_count r s n = ((\<exists>ms. scan r s ms) \<and> (\<forall>ms. scan r s ms \<longrightarrow> length ms = n))"

section \<open>Example inputs\<close>

definition example_page :: jsstring where
  "example_page =
     js ''<h1>A</h1><h1>B</h1><h1>C</h1><p>x</p><p>y</p><img src=i.png><a href=u>1</a><a>2</a><a>3</a><a>4</a>''"

definition mixed_heading :: jsstring where
  "mixed_heading = js ''<h1>a</h2>''"

text \<open>One paragraph whose content is two lines (code unit \<open>10\<close> is the line feed).\<close>

definition two_line_paragraph :: jsstring where
  "two_line_paragraph = js ''<p>a'' @ [10] @ js ''b</p>''"

text \<open>A small site: a page, the shared stylesheet one directory up, the stylesheet of the
  page beside it; no browser launched yet.\<close>

definition site :: world where
  "site = \<lparr> files = [''/site/pages/index.html'' \<mapsto> File (js ''<h1>Hi</h1>''),
                      ''/site/style.css'' \<mapsto> File (js ''body {}''),
                      ''/site/pages/index.css'' \<mapsto> File (js ''h1 {}'')],
             this_browser = None, engines = [], open_pages = [], next_handle = 0, calls = [] \<rparr>"


definition site_with_dir :: world where
  "site_with_dir = site\<lparr>files := (files site)(''/site/pages'' \<mapsto> Directory)\<rparr>"

definition gallery_site :: world where
  "gallery_site = site\<lparr>files := [''/site/pages/gallery.html'' \<mapsto> Directory,
      ''/site/style.css'' \<mapsto> File (js ''body {}''),
      ''/site/pages/gallery.css'' \<mapsto> File (js ''h1 {}'')]\<rparr>"

definition double_ext_site :: world where
  "double_ext_site = site\<lparr>files := [''/site/pages/index.html.html'' \<mapsto> File (js ''<h1>Hi</h1>''),
      ''/site/style.css'' \<mapsto> File (js ''body {}''),
      ''/site/pages/index.html.css'' \<mapsto> File (js ''h1 {}'')]\<rparr>"

text \<open>An engine that accepts every call, one whose navigation times out, and one that
  refuses a viewport whose width or height is not a positive number.\<close>

definition engine_ok :: env where
  "engine_ok = \<lparr> rejects = (\<lambda>c. False), clock = 1700000000123,
                  rendered = js ''<html></html>'', screenshot_data = js ''PNG'' \<rparr>"

definition engine_timeout :: env where
  "engine_timeout =
     engine_ok\<lparr>rejects := (\<lambda>c. case c of PageGoto pg u \<Rightarrow> True | _ \<Rightarrow> False)\<rparr>"

definition engine_strict :: env where
  "engine_strict =
     engine_ok\<lparr>rejects := (\<lambda>c. case c of
        PageSetViewport pg (JNum x) (JNum y) \<Rightarrow> x \<le> 0 \<or> y \<le> 0
      | PageSetViewport pg _ _ \<Rightarrow> True
      | _ \<Rightarrow> False)\<rparr>"

definition index_args :: args where
  "index_args = [''filePath'' \<mapsto> JStr ''/site/pages/index.html'']"

definition missing_args :: args where
  "missing_args = [''filePath'' \<mapsto> JStr ''/site/pages/missing.html'']"

definition negative_width_args :: args where
  "negative_width_args =
     [''filePath'' \<mapsto> JStr ''/site/pages/index.html'', ''width'' \<mapsto> JNum (- 1)]"

definition pages_args :: args where
  "pages_args = [''filePath'' \<mapsto> JStr ''/site/pages'']"

definition gallery_args :: args where
  "gallery_args = [''filePath'' \<mapsto> JStr ''/site/pages/gallery.html'']"

definition double_ext_args :: args where
  "double_ext_args = [''filePath'' \<mapsto> JStr ''/site/pages/index.html.html'']"

section \<open>The matcher finds the non-overlapping shortest matches\<close>

lemma rmatch_sound: "rmatch r s = Some t \<Longrightarrow> \<exists>w. s = w @ t \<and> accepts r w"
proof (induction r s arbitrary: t rule: rmatch.induct)
  case (1 s)
  then show ?case by simp
next
  case (2 c r)
  then show ?case by simp
next
  case (3 c r x xs)
  then obtain w where "xs = w @ t" "accepts r w" by (auto split: if_splits)
  with 3 have "x # xs = (x # w) @ t \<and> accepts (One c # r) (x # w)" by (auto split: if_splits)
  then show ?case by blast
next
  case (4 c r)
  then show ?case by auto
next
  case (5 c r x xs)
  show ?case
  proof (cases "cmatch c x \<and> rmatch (Star c # r) xs \<noteq> None")
    case True
    with 5 obtain w where "xs = w @ t" "accepts (Star c # r) w" by auto
    with True have "x # xs = (x # w) @ t \<and> accepts (Star c # r) (x # w)" by simp
    then show ?thesis by blast
  next
    case False
    with 5 obtain w where w: "x # xs = w @ t" "accepts r w" by (auto split: if_splits option.splits)
    then have "accepts (Star c # r) w" by (cases w) auto
    with w show ?thesis by blast
  qed
next
  case (6 c r)
  then show ?case by auto
next
  case (7 c r x xs)
  show ?case
  proof (cases "rmatch r (x # xs)")
    case None
    with 7 obtain w where "xs = w @ t" "accepts (LazyStar c # r) w" "cmatch c x"
      by (auto split: if_splits)
    then have "x # xs = (x # w) @ t \<and> accepts (LazyStar c # r) (x # w)" by simp
    then show ?thesis by blast
  next
    case (Some a)
    with 7 obtain w where w: "x # xs = w @ t" "accepts r w" by auto
    then have "accepts (LazyStar c # r) w" by (cases w) auto
    with w show ?thesis by blast
  qed
qed

lemma rmatch_complete: "accepts r w \<Longrightarrow> rmatch r (w @ u) \<noteq> None"
proof (induction r w arbitrary: u rule: accepts.induct)
  case (1 w)
  then show ?case by simp
next
  case (2 c r)
  then show ?case by simp
next
  case (3 c r x xs)
  then show ?case by simp
next
  case (4 c r)
  then have "rmatch r ([] @ u) \<noteq> None" by simp
  then show ?case by (cases u) (auto split: option.splits)
next
  case (5 c r x xs)
  from "5.prems" consider (a) "accepts r (x # xs)"
    | (b) "\<not> accepts r (x # xs)" "cmatch c x" "accepts (Star c # r) xs" by auto
  then show ?case
  proof cases
    case a
    then have "rmatch r ((x # xs) @ u) \<noteq> None" using "5.IH"(1) by blast
    then show ?thesis by (auto split: option.splits)
  next
    case b
    then have "rmatch (Star c # r) (xs @ u) \<noteq> None" using "5.IH"(2) by blast
    with b show ?thesis by auto
  qed
next
  case (6 c r)
  then have "rmatch r ([] @ u) \<noteq> None" by simp
  then show ?case by (cases u) (auto split: option.splits)
next
  case (7 c r x xs)
  from "7.prems" consider (a) "accepts r (x # xs)"
    | (b) "\<not> accepts r (x # xs)" "cmatch c x" "accepts (LazyStar c # r) xs" by auto
  then show ?case
  proof cases
    case a
    then have "rmatch r ((x # xs) @ u) \<noteq> None" using "7.IH"(1) by blast
    then show ?thesis by (auto split: option.splits)
  next
    case b
    then have "rmatch (LazyStar c # r) (xs @ u) \<noteq> None" using "7.IH"(2) by blast
    with b show ?thesis by (auto split: option.splits)
  qed
qed

lemma excludes_cmatch: "excludes c d \<Longrightarrow> cmatch c x \<Longrightarrow> \<not> cmatch d x"
  by (induction c d rule: excludes.induct) auto

lemma fixed_width_length: "fixed_width r \<Longrightarrow> accepts r w \<Longrightarrow> length w = length r"
proof (induction r arbitrary: w rule: fixed_width.induct)
  case 1
  then show ?case by simp
next
  case (2 c r)
  then show ?case by (cases w) auto
qed auto

lemma lazy_minimal:
  "rmatch (LazyStar c # r) s = Some t \<Longrightarrow>
   \<exists>u v. s = u @ v \<and> rmatch r v = Some t \<and> (\<forall>k<length u. rmatch r (drop k s) = None)"
proof (induction s)
  case Nil
  then show ?case by simp
next
  case (Cons x xs)
  show ?case
  proof (cases "rmatch r (x # xs)")
    case None
    with Cons.prems have "rmatch (LazyStar c # r) xs = Some t" by (auto split: if_splits)
    with Cons.IH obtain u v where uv: "xs = u @ v" "rmatch r v = Some t"
      "\<forall>k<length u. rmatch r (drop k xs) = None" by blast
    have "\<forall>k<length (x # u). rmatch r (drop k (x # xs)) = None"
    proof (intro allI impI)
      fix k assume "k < length (x # u)"
      then show "rmatch r (drop k (x # xs)) = None"
        using None uv(3) by (cases k) auto
    qed
    with uv have "x # xs = (x # u) @ v \<and> rmatch r v = Some t
      \<and> (\<forall>k<length (x # u). rmatch r (drop k (x # xs)) = None)" by simp
    then show ?thesis by blast
  next
    case (Some a)
    with Cons.prems have "x # xs = [] @ (x # xs) \<and> rmatch r (x # xs) = Some t
      \<and> (\<forall>k<length ([]::jsstring). rmatch r (drop k (x # xs)) = None)" by simp
    then show ?thesis by blast
  qed
qed

lemma greedy_delimited:
  "excludes c d \<Longrightarrow>
   rmatch (Star c # One d # r) s = rmatch (One d # r) (dropWhile (cmatch c) s)"
proof (induction s)
  case Nil
  then show ?case by simp
next
  case (Cons x xs)
  then show ?case by (auto simp: excludes_cmatch split: option.splits)
qed

lemma accepts_delimited:
  "excludes c d \<Longrightarrow> accepts (Star c # One d # r) w \<Longrightarrow>
   accepts (One d # r) (dropWhile (cmatch c) w) \<and>
   dropWhile (cmatch c) (w @ t) = dropWhile (cmatch c) w @ t"
proof (induction w)
  case Nil
  then show ?case by simp
next
  case (Cons x xs)
  then show ?case by (auto simp: excludes_cmatch)
qed

lemma accepts_lazy_split:
  "accepts (LazyStar c # r) w \<Longrightarrow> \<exists>u b. w = u @ b \<and> accepts r b"
proof (induction w)
  case Nil
  then have "[] = [] @ ([]::jsstring) \<and> accepts r []" by simp
  then show ?case by blast
next
  case (Cons x xs)
  from Cons.prems consider (a) "accepts r (x # xs)" | (b) "accepts (LazyStar c # r) xs" by auto
  then show ?case
  proof cases
    case a
    then have "x # xs = [] @ (x # xs) \<and> accepts r (x # xs)" by simp
    then show ?thesis by blast
  next
    case b
    with Cons.IH obtain u b where "xs = u @ b" "accepts r b" by blast
    then have "x # xs = (x # u) @ b \<and> accepts r b" by simp
    then show ?thesis by blast
  qed
qed

lemma rmatch_shortest:
  "shortest_first r \<Longrightarrow> rmatch r s = Some t \<Longrightarrow> s = w @ t' \<Longrightarrow> accepts r w \<Longrightarrow>
   length t' \<le> length t"
proof (induction r arbitrary: s t w t' rule: shortest_first.induct)
  case 1
  then show ?case by simp
next
  case (2 c r)
  from "2.prems"(4) obtain x w' where w: "w = x # w'" "accepts r w'" by (cases w) auto
  with "2.prems" have "shortest_first r" "rmatch r (w' @ t') = Some t"
    by (auto split: if_splits)
  with w show ?case using "2.IH" by blast
next
  case (3 c d r)
  then have dj: "excludes c d" and sf: "shortest_first (One d # r)" by auto
  from "3.prems"(2) dj have m: "rmatch (One d # r) (dropWhile (cmatch c) s) = Some t"
    by (simp add: greedy_delimited)
  from accepts_delimited[OF dj "3.prems"(4), of t'] "3.prems"(3)
  have "dropWhile (cmatch c) s = dropWhile (cmatch c) w @ t'"
    "accepts (One d # r) (dropWhile (cmatch c) w)" by auto
  with "3.IH"[OF sf m] show ?case by blast
next
  case (5 c r)
  then have fx: "fixed_width r" by simp
  from lazy_minimal[OF "5.prems"(2)] obtain u v where uv: "s = u @ v" "rmatch r v = Some t"
    "\<forall>k<length u. rmatch r (drop k s) = None" by blast
  from rmatch_sound[OF uv(2)] obtain m where m: "v = m @ t" "accepts r m" by blast
  from accepts_lazy_split[OF "5.prems"(4)] obtain u' b where b: "w = u' @ b" "accepts r b" by blast
  have lm: "length m = length r" "length b = length r"
    using fixed_width_length[OF fx] m b by auto
  have "\<not> length u' < length u"
  proof
    assume "length u' < length u"
    with uv(3) have "rmatch r (drop (length u') s) = None" by blast
    moreover have "drop (length u') s = b @ t'" using "5.prems"(3) b by simp
    ultimately show False using rmatch_complete[OF b(2), of t'] by simp
  qed
  moreover have "length s = length u + length r + length t" using uv m lm by simp
  moreover have "length s = length u' + length r + length t'" using "5.prems"(3) b lm by simp
  ultimately show ?case by linarith
qed simp_all

lemma match_g_scan:
  "shortest_first r \<Longrightarrow> \<not> accepts r [] \<Longrightarrow> scan r s (match_g r s)"
proof (induction r s rule: match_g.induct)
  case (1 r)
  have "rmatch r [] = None"
  proof (cases "rmatch r []")
    case (Some t)
    from rmatch_sound[OF Some] "1.prems" show ?thesis by auto
  qed simp
  then show ?case by (simp add: scan_end)
next
  case (2 r x xs)
  show ?case
  proof (cases "rmatch r (x # xs)")
    case None
    have "\<forall>w t. x # xs = w @ t \<longrightarrow> \<not> accepts r w"
    proof (intro allI impI notI)
      fix w t assume "x # xs = w @ t" "accepts r w"
      with rmatch_complete[of r w t] None show False by simp
    qed
    moreover have "scan r xs (match_g r xs)" using "2.IH"(1)[OF None] "2.prems" by blast
    ultimately show ?thesis using None by (simp add: scan_skip)
  next
    case (Some t)
    from rmatch_sound[OF Some] obtain w where w: "x # xs = w @ t" "accepts r w" by blast
    with "2.prems" have ne: "w \<noteq> []" by auto
    with w have lt: "length t < length (x # xs)"
      by (metis length_append length_greater_0_conv less_add_same_cancel2)
    have tk: "take (length (x # xs) - length t) (x # xs) = w" using w by simp
    have sm: "shortest_match r (w @ t) w"
      unfolding shortest_match_def
    proof (intro conjI allI impI)
      show "accepts r w" by (rule w(2))
      show "\<exists>ta. w @ t = w @ ta" by blast
    next
      fix w' t' assume a: "w @ t = w' @ t' \<and> accepts r w'"
      with rmatch_shortest[OF "2.prems"(1) Some, of w' t'] w have "length t' \<le> length t" by simp
      moreover have "length w + length t = length w' + length t'"
        using a by (metis length_append)
      ultimately show "length w \<le> length w'" by linarith
    qed
    have "scan r t (match_g r t)" using "2.IH"(2)[OF Some lt] "2.prems" by blast
    with ne sm have "scan r (w @ t) (w # match_g r t)" by (rule scan_hit)
    moreover have "match_g r (x # xs) = w # match_g r t" using Some lt tk by simp
    ultimately show ?thesis using w(1) by simp
  qed
qed

lemma scan_unique: "scan r s ms \<Longrightarrow> scan r s ms' \<Longrightarrow> ms = ms'"
proof (induction arbitrary: ms' rule: scan.induct)
  case scan_end
  then show ?case by (auto elim: scan.cases)
next
  case (scan_skip x xs ms)
  from scan_skip.prems show ?case
  proof (cases rule: scan.cases)
    case scan_skip
    with scan_skip.IH show ?thesis by simp
  next
    case (scan_hit w t ns)
    with scan_skip.hyps(1) show ?thesis by (auto simp: shortest_match_def)
  qed
next
  case (scan_hit w t ms)
  from scan_hit.prems show ?case
  proof (cases rule: scan.cases)
    case scan_end
    with scan_hit.hyps show ?thesis by simp
  next
    case (scan_skip x xs)
    with scan_hit.hyps show ?thesis by (auto simp: shortest_match_def)
  next
    case (scan_hit w' t' ns)
    with scan_hit.hyps(2) have "length w \<le> length w'" "length w' \<le> length w"
      by (auto simp: shortest_match_def)
    with scan_hit(1) have "w = w'" "t = t'"
      by (metis append_eq_append_conv le_antisym)+
    with scan_hit scan_hit.IH show ?thesis by simp
  qed
qed

lemma match_g_count:
  assumes "shortest_first r" and "\<not> accepts r []"
  shows "match_count r s (length (match_g r s))"
proof -
  have ex: "scan r s (match_g r s)" using assms by (rule match_g_scan)
  moreover have "length ms = length (match_g r s)" if "scan r s ms" for ms
    using scan_unique[OF that ex] by simp
  ultimately show ?thesis unfolding match_count_def by blast
qed

lemma patterns_shortest_first:
  "shortest_first heading_re" "shortest_first paragraph_re"
  "shortest_first image_re" "shortest_first link_re"
  by (simp_all add: heading_re_def paragraph_re_def image_re_def link_re_def lits_def)

lemma patterns_nonempty:
  "\<not> accepts heading_re []" "\<not> accepts paragraph_re []"
  "\<not> accepts image_re []" "\<not> accepts link_re []"
  by (simp_all add: heading_re_def paragraph_re_def image_re_def link_re_def lits_def)

lemma analyzeContent_example:
  "analyzeContent example_page = \<lparr>headings = 3, paragraphs = 2, images = 1, links = 4\<rparr>"
  by (simp add: analyzeContent_def example_page_def js_def heading_re_def paragraph_re_def
      image_re_def link_re_def lits_def)

text \<open>
  C1, as amended. For every input string, the four numbers \<^verbatim>\<open>analyzeContent\<close> returns are
  the numbers of non-overlapping matches, read from left to right, of the four patterns
  of the source: a heading is an open tag \<^verbatim>\<open><h1\<close> to \<^verbatim>\<open><h6\<close>, the shortest content without
  a line terminator, and a close tag \<^verbatim>\<open></h1>\<close> to \<^verbatim>\<open></h6>\<close> of any level; paragraphs and
  anchors are an open tag, shortest content and the close tag; an image is the tag
  \<^verbatim>\<open><img ...>\<close> alone.
\<close>

theorem analyzeContent_counts_matches:
  "match_count heading_re content (headings (analyzeContent content)) \<and>
   match_count paragraph_re content (paragraphs (analyzeContent content)) \<and>
   match_count image_re content (images (analyzeContent content)) \<and>
   match_count link_re content (links (analyzeContent content))"
  by (simp add: analyzeContent_def match_g_count patterns_shortest_first patterns_nonempty)

theorem analyzeContent_counts_matches_witness:
  "match_count heading_re example_page 3 \<and> match_count paragraph_re example_page 2 \<and>
   match_count image_re example_page 1 \<and> match_count link_re example_page 4"
  using analyzeContent_counts_matches [of example_page]
  by (simp add: analyzeContent_example)

text \<open>
  C1 as stated fails: the input \<^verbatim>\<open><h1>a</h2>\<close> has no heading whose close tag is of the
  level of its open tag, and the code counts one heading. And an input that contains
  exactly one \<^verbatim>\<open><p>\<close> element need not give the count one: a paragraph of two lines is
  not counted.
\<close>

theorem heading_level_counterexample:
  "headings (analyzeContent mixed_heading) = 1 \<and> same_level_headings mixed_heading = 0 \<and>
   paragraphs (analyzeContent two_line_paragraph) = 0"
  by (simp add: analyzeContent_def mixed_heading_def two_line_paragraph_def js_def heading_re_def
      paragraph_re_def lits_def same_level_match_def heading_level_re_def)

section \<open>Runs on the example inputs\<close>

lemmas run_defs = handlePreviewFile_def handleAnalyzeContent_def arg_def with_default_def
  fs_existsSync_def fs_readFileSync_def fs_mkdirSync_recursive_def dirs_to_def record_call_def
  and_then_def return_def try_finally_def initBrowser_def puppeteer_launch_def launch_settle_def
  browser_newPage_def page_call_def page_screenshot_def page_content_def page_close_def
  preview_body_def

lemmas path_defs = mainCssPath_def pageCssPath_def spec_pageCssPath_def screenshotsDir_def
  screenshotName_def screenshotPath_def path_join_def path_normalize_def path_dirname_def
  path_basename_def path_basename_ext_def ends_with_def show_nat.simps

lemma index_paths:
  "mainCssPath ''/site/pages/index.html'' = ''/site/style.css''"
  "pageCssPath ''/site/pages/index.html'' = ''/site/pages/index.css''"
  "screenshotPath ''/site/pages/index.html'' 1700000000123 =
     ''/Users/seanivore/Documents/Cline/MCP/mcp-file-preview/screenshots/index_1700000000123.png''"
  by (simp_all add: path_defs)

lemma preview_index_result:
  "fst (handlePreviewFile engine_ok (Some index_args) site) =
     Inr [TextBlock (preview_text
       ''/Users/seanivore/Documents/Cline/MCP/mcp-file-preview/screenshots/index_1700000000123.png''
       (js ''<html></html>''))]"
  by (simp add: run_defs path_defs site_def engine_ok_def index_args_def)

text \<open>\<^verbatim>\<open>path.basename\<close> with an extension, on a name with the extension, on the extension
  alone, and on last components that are a proper end of the extension.\<close>

lemma path_basename_ext_examples:
  "path_basename_ext ''/site/pages/index.html'' ''.html'' = ''index'' \<and>
   path_basename_ext ''/site/.html'' ''.html'' = ''.html'' \<and>
   path_basename_ext ''/site/tml/'' ''.html'' = ''tml/'' \<and>
   path_basename_ext ''/////'' ''.html'' = ''/////'' \<and>
   path_basename_ext ''/site/pages/'' ''.html'' = ''pages''"
  by (simp add: path_basename_ext_def path_basename_def ends_with_def)

text \<open>\<^verbatim>\<open>mkdirSync\<close> with a file in the way: the error names the path asked for.\<close>

lemma mkdir_blocked_example:
  "fst (fs_mkdirSync_recursive ''/a/b/c''
     (site\<lparr>files := (files site)(''/a'' \<mapsto> File (js ''x''))\<rparr>)) =
     Inl (FsError ENOTDIR ''/a/b/c'')"
  by (simp add: fs_mkdirSync_recursive_def dirs_to_def record_call_def site_def
      path_defs)

section \<open>The existence check\<close>

text \<open>
  C2. For every path at which the file system has nothing, \<^verbatim>\<open>handlePreviewFile\<close> and
  \<^verbatim>\<open>handleAnalyzeContent\<close> both throw the not-found error
  \<^verbatim>\<open>McpError(InvalidRequest, "File not found: <path>")\<close>, and the state they leave differs
  from the state before by the one call \<^verbatim>\<open>fs.existsSync(path)\<close> only: no browser is
  launched, no page is created and nothing is written.
\<close>

theorem missing_path_NotFound:
  assumes "files w p = None" and "a ''filePath'' = Some (JStr p)"
  shows "handlePreviewFile e (Some a) w =
           (Inl (McpError InvalidRequest (''File not found: '' @ p)),
            record_call (FsExistsSync (JStr p)) w) \<and>
         handleAnalyzeContent (Some a) w =
           (Inl (McpError InvalidRequest (''File not found: '' @ p)),
            record_call (FsExistsSync (JStr p)) w)"
  using assms
  by (simp add: handlePreviewFile_def handleAnalyzeContent_def arg_def fs_existsSync_def)

text \<open>C2 on the example site, for the path \<^verbatim>\<open>/site/pages/missing.html\<close>.\<close>

theorem missing_path_NotFound_witness:
  "handlePreviewFile engine_ok (Some missing_args) site =
     (Inl (McpError InvalidRequest ''File not found: /site/pages/missing.html''),
      record_call (FsExistsSync (JStr ''/site/pages/missing.html'')) site) \<and>
   handleAnalyzeContent (Some missing_args) site =
     (Inl (McpError InvalidRequest ''File not found: /site/pages/missing.html''),
      record_call (FsExistsSync (JStr ''/site/pages/missing.html'')) site)"
  using missing_path_NotFound [of site "''/site/pages/missing.html''" missing_args engine_ok]
  by (simp add: site_def missing_args_def)

text \<open>
  C3 (code at the failing input). A call whose arguments are the empty object has no
  \<^verbatim>\<open>filePath\<close>. Both handlers of index.ts hand \<^verbatim>\<open>undefined\<close> to \<^verbatim>\<open>fs.existsSync\<close> and throw
  the not-found error with the message \<^verbatim>\<open>File not found: undefined\<close>; they have no check of
  the argument and no error of its own for a missing argument.
\<close>

theorem missing_filePath_reported_as_not_found:
  "handlePreviewFile e (Some Map.empty) w =
     (Inl (McpError InvalidRequest ''File not found: undefined''),
      record_call (FsExistsSync JUndefined) w) \<and>
   handleAnalyzeContent (Some Map.empty) w =
     (Inl (McpError InvalidRequest ''File not found: undefined''),
      record_call (FsExistsSync JUndefined) w)"
  by (simp add: handlePreviewFile_def handleAnalyzeContent_def arg_def fs_existsSync_def)

section \<open>Errors of the preview once the path exists\<close>

lemma errs_and_then: "errs P m \<Longrightarrow> (\<And>x. errs P (f x)) \<Longrightarrow> errs P (and_then m f)"
  unfolding errs_def and_then_def by (fastforce split: prod.splits sum.splits)

lemma errs_try_finally: "errs P body \<Longrightarrow> errs P cleanup \<Longrightarrow> errs P (try_finally body cleanup)"
  unfolding errs_def try_finally_def by (fastforce split: prod.splits sum.splits)

lemma errs_return: "errs P (return x)"
  by (simp add: errs_def return_def)

lemma errs_page_call: "errs engine_or_read_error (page_call e c)"
  by (auto simp: errs_def page_call_def)

lemma errs_readFile: "errs engine_or_read_error (fs_readFileSync p)"
  by (auto simp: errs_def fs_readFileSync_def split: option.splits node.splits)

lemma mkdir_chain_error: "mkdir_chain p ds fs = (Some err, fs') \<Longrightarrow> engine_or_read_error err"
  by (induction ds arbitrary: fs) (auto split: option.splits node.splits)

lemma errs_mkdir: "errs engine_or_read_error (fs_mkdirSync_recursive p)"
  by (auto simp: errs_def fs_mkdirSync_recursive_def mkdir_chain_error split: prod.splits option.splits)

lemma errs_ensure_dir:
  "errs engine_or_read_error (\<lambda>w. case fs_existsSync v w of
      (ex, w1) \<Rightarrow> if ex then (Inr (), w1) else fs_mkdirSync_recursive p w1)"
  using errs_mkdir[of p] by (auto simp: errs_def split: prod.splits if_splits)

lemma errs_screenshot: "errs engine_or_read_error (page_screenshot e pg p)"
  by (auto simp: errs_def page_screenshot_def Let_def split: if_splits)

lemma errs_content: "errs engine_or_read_error (page_content e pg)"
  by (auto simp: errs_def page_content_def)

lemma errs_close: "errs engine_or_read_error (page_close e pg)"
  by (auto simp: errs_def page_close_def Let_def split: if_splits)

lemma errs_newPage: "errs engine_or_read_error (browser_newPage e b)"
  by (auto simp: errs_def browser_newPage_def Let_def split: if_splits)

lemma errs_initBrowser: "errs engine_or_read_error (initBrowser e)"
  by (auto simp: errs_def initBrowser_def puppeteer_launch_def launch_settle_def
      split: option.splits if_splits)

lemma errs_preview_body: "errs engine_or_read_error (preview_body e p pg)"
  unfolding preview_body_def
  by (intro errs_and_then errs_page_call errs_readFile errs_ensure_dir errs_screenshot
      errs_content errs_return)

lemma preview_after_check:
  assumes "files w p \<noteq> None" and "a ''filePath'' = Some (JStr p)"
  shows "handlePreviewFile e (Some a) w =
           preview_pipeline e a p (record_call (FsExistsSync (JStr p)) w)"
  using assms by (auto simp: handlePreviewFile_def preview_pipeline_def arg_def fs_existsSync_def)

lemma errs_pipeline: "errs engine_or_read_error (preview_pipeline e a p)"
  unfolding preview_pipeline_def
  by (intro errs_and_then errs_try_finally errs_initBrowser errs_newPage errs_page_call
      errs_preview_body errs_close)

lemma preview_errors:
  assumes "files w p \<noteq> None" and "a ''filePath'' = Some (JStr p)"
  shows "case fst (handlePreviewFile e (Some a) w) of
           Inl err \<Rightarrow> engine_or_read_error err | Inr res \<Rightarrow> True"
proof (cases "handlePreviewFile e (Some a) w")
  case (Pair r w')
  then have "preview_pipeline e a p (record_call (FsExistsSync (JStr p)) w) = (r, w')"
    using preview_after_check[of w p a e] assms by simp
  with errs_pipeline[of e a p] Pair show ?thesis
    by (cases r) (auto simp: errs_def)
qed

section \<open>A stylesheet that cannot be read\<close>

lemma quiet_refl: "quiet w w"
  by (simp add: quiet_def new_calls_def)

lemma quiet_iff:
  "quiet w w' \<longleftrightarrow> files w' = files w \<and> (\<exists>cs. calls w' = calls w @ cs \<and> filter is_write cs = [])"
proof
  assume "quiet w w'"
  then show "files w' = files w \<and> (\<exists>cs. calls w' = calls w @ cs \<and> filter is_write cs = [])"
    unfolding quiet_def by blast
next
  assume a: "files w' = files w \<and> (\<exists>cs. calls w' = calls w @ cs \<and> filter is_write cs = [])"
  then obtain cs where "calls w' = calls w @ cs" "filter is_write cs = []" by blast
  with a show "quiet w w'" by (simp add: quiet_def new_calls_def)
qed

lemma quiet_trans: "quiet w w1 \<Longrightarrow> quiet w1 w2 \<Longrightarrow> quiet w w2"
  unfolding quiet_iff by auto

lemma quiet_record: "\<not> is_write c \<Longrightarrow> quiet w (record_call c w)"
  by (simp add: quiet_def new_calls_def record_call_def)

lemma quiet_files: "quiet w w' \<Longrightarrow> files w' = files w"
  by (simp add: quiet_def)

lemma quiet_on_and_then:
  assumes "quiet_on F m" and "\<And>x. quiet_on F (f x)"
  shows "quiet_on F (and_then m f)"
  unfolding quiet_on_def
proof (intro allI impI)
  fix w :: world and r w' assume F: "files w = F" and run: "and_then m f w = (r, w')"
  obtain r1 w1 where m: "m w = (r1, w1)" by (cases "m w")
  with assms(1) F have q1: "quiet w w1" by (auto simp: quiet_on_def)
  show "quiet w w'"
  proof (cases r1)
    case (Inl err)
    with m run q1 show ?thesis by (simp add: and_then_def)
  next
    case (Inr x)
    with m run have "f x w1 = (r, w')" by (simp add: and_then_def)
    moreover have "files w1 = F" using q1 F by (simp add: quiet_def)
    ultimately have "quiet w1 w'" using assms(2)[of x] by (auto simp: quiet_on_def)
    with q1 show ?thesis by (rule quiet_trans)
  qed
qed

lemma quiet_on_page_call: "quiet_on F (page_call e c)" if "\<not> is_write c"
  using that by (auto simp: quiet_on_def page_call_def quiet_record)

lemma quiet_on_readFile: "quiet_on F (fs_readFileSync p)"
  by (auto simp: quiet_on_def fs_readFileSync_def quiet_record)

lemma quiet_on_close: "quiet_on F (page_close e pg)"
  by (auto simp: quiet_on_def page_close_def quiet_def new_calls_def record_call_def Let_def
      split: if_splits)

lemma quiet_on_newPage: "quiet_on F (browser_newPage e b)"
  by (auto simp: quiet_on_def browser_newPage_def quiet_def new_calls_def record_call_def Let_def
      split: if_splits)

lemma quiet_on_initBrowser: "quiet_on F (initBrowser e)"
  by (auto simp: quiet_on_def initBrowser_def puppeteer_launch_def launch_settle_def quiet_def
      new_calls_def record_call_def split: option.splits if_splits)

lemma errs_nav_page_call:
  "preempts_style_error c \<Longrightarrow> errs navigation_or_read_error (page_call e c)"
  by (auto simp: errs_def page_call_def)

lemma errs_nav_readFile: "errs navigation_or_read_error (fs_readFileSync p)"
  by (auto simp: errs_def fs_readFileSync_def split: option.splits node.splits)

lemma errs_nav_close: "errs navigation_or_read_error (page_close e pg)"
  by (auto simp: errs_def page_close_def Let_def split: if_splits)

lemma errs_nav_newPage: "errs navigation_or_read_error (browser_newPage e b)"
  by (auto simp: errs_def browser_newPage_def Let_def split: if_splits)

lemma errs_nav_initBrowser: "errs navigation_or_read_error (initBrowser e)"
  by (auto simp: errs_def initBrowser_def puppeteer_launch_def launch_settle_def
      split: option.splits if_splits)

lemma fails_first: "fails_quietly F m \<Longrightarrow> fails_quietly F (and_then m f)"
  by (fastforce simp: fails_quietly_def and_then_def)

lemma fails_later:
  assumes "quiet_on F m" and "errs navigation_or_read_error m"
    and "\<And>x. fails_quietly F (f x)"
  shows "fails_quietly F (and_then m f)"
  unfolding fails_quietly_def
proof (intro allI impI)
  fix w :: world assume F: "files w = F"
  obtain r1 w1 where m: "m w = (r1, w1)" by (cases "m w")
  with assms(1) F have q1: "quiet w w1" by (auto simp: quiet_on_def)
  show "\<exists>err w'. and_then m f w = (Inl err, w') \<and> navigation_or_read_error err \<and> quiet w w'"
  proof (cases r1)
    case (Inl err)
    with m assms(2) have "navigation_or_read_error err" by (auto simp: errs_def)
    with Inl m q1 show ?thesis by (simp add: and_then_def)
  next
    case (Inr x)
    have "files w1 = F" using q1 F by (simp add: quiet_def)
    with assms(3)[of x] obtain err w' where
      "f x w1 = (Inl err, w')" "navigation_or_read_error err" "quiet w1 w'"
      by (auto simp: fails_quietly_def)
    with m Inr q1 show ?thesis by (auto simp: and_then_def intro: quiet_trans)
  qed
qed

lemma fails_finally:
  assumes "fails_quietly F body" and "quiet_on F cleanup"
    and "errs navigation_or_read_error cleanup"
  shows "fails_quietly F (try_finally body cleanup)"
  unfolding fails_quietly_def
proof (intro allI impI)
  fix w :: world assume F: "files w = F"
  with assms(1) obtain err w1 where
    b: "body w = (Inl err, w1)" "navigation_or_read_error err" "quiet w w1"
    by (auto simp: fails_quietly_def)
  obtain r2 w2 where c: "cleanup w1 = (r2, w2)" by (cases "cleanup w1")
  have "files w1 = F" using b F by (simp add: quiet_def)
  with c assms(2) have "quiet w1 w2" by (auto simp: quiet_on_def)
  with b have q: "quiet w w2" by (auto intro: quiet_trans)
  show "\<exists>err w'. try_finally body cleanup w = (Inl err, w') \<and> navigation_or_read_error err
          \<and> quiet w w'"
  proof (cases r2)
    case (Inl err2)
    with c assms(3) have "navigation_or_read_error err2" by (auto simp: errs_def)
    with Inl b c q show ?thesis by (simp add: try_finally_def)
  next
    case (Inr u)
    with b c q show ?thesis by (simp add: try_finally_def)
  qed
qed

lemma fails_read: "\<not> is_file (F p) \<Longrightarrow> fails_quietly F (fs_readFileSync p)"
  by (auto simp: fails_quietly_def fs_readFileSync_def quiet_record
      split: option.splits node.splits)

lemma fails_body:
  assumes "\<not> is_file (F (mainCssPath p)) \<or> \<not> is_file (F (pageCssPath p))"
  shows "fails_quietly F (preview_body e p pg)"
proof (cases "is_file (F (mainCssPath p))")
  case False
  then show ?thesis
    unfolding preview_body_def
    by (intro fails_later quiet_on_page_call errs_nav_page_call fails_first fails_read) simp_all
next
  case True
  with assms have "\<not> is_file (F (pageCssPath p))" by simp
  then show ?thesis
    unfolding preview_body_def
    by (intro fails_later quiet_on_page_call errs_nav_page_call quiet_on_readFile
        errs_nav_readFile fails_first fails_read) simp_all
qed

lemma fails_pipeline:
  assumes "\<not> is_file (F (mainCssPath p)) \<or> \<not> is_file (F (pageCssPath p))"
  shows "fails_quietly F (preview_pipeline e a p)"
  unfolding preview_pipeline_def
  by (intro fails_later quiet_on_initBrowser errs_nav_initBrowser quiet_on_newPage
      errs_nav_newPage quiet_on_page_call errs_nav_page_call fails_finally
      fails_body[OF assms] quiet_on_close errs_nav_close) simp_all

lemma preview_fails_quietly:
  assumes ex: "files w p \<noteq> None" and arg: "a ''filePath'' = Some (JStr p)"
    and nf: "\<not> is_file (files w (mainCssPath p)) \<or> \<not> is_file (files w (pageCssPath p))"
  shows "\<exists>err w'. handlePreviewFile e (Some a) w = (Inl err, w') \<and>
           navigation_or_read_error err \<and> quiet w w'"
proof -
  let ?w1 = "record_call (FsExistsSync (JStr p)) w"
  have "files ?w1 = files w" by (simp add: record_call_def)
  with fails_pipeline[of "files w" p e a] nf obtain err w'
    where run: "preview_pipeline e a p ?w1 = (Inl err, w')"
      and ne: "navigation_or_read_error err" and q: "quiet ?w1 w'"
    by (auto simp: fails_quietly_def)
  have "quiet w ?w1" by (simp add: quiet_record)
  then have "quiet w w'" using q by (rule quiet_trans)
  moreover have "handlePreviewFile e (Some a) w = (Inl err, w')"
    using run preview_after_check[of w p a e, OF ex arg] by simp
  ultimately show ?thesis using ne by blast
qed





section \<open>A directory as input\<close>

text \<open>
  C9, as amended. For a path at which the file system has a directory, neither handler
  takes the not-found branch. \<^verbatim>\<open>handleAnalyzeContent\<close> throws \<^verbatim>\<open>EISDIR\<close> at the file read,
  after the two calls \<^verbatim>\<open>existsSync\<close> and \<^verbatim>\<open>readFileSync\<close>. \<^verbatim>\<open>handlePreviewFile\<close> goes on to
  the browser steps, and it fails, whatever the engine does, whenever the stylesheet path
  it derives for the page is the directory itself, or one of the two stylesheets it reads
  is not a regular file: it then throws a rejected engine call up to the navigation (or
  the closing of the page) or a read error, never the not-found error, and it leaves the
  file system as it was and makes no writing call. In the case left (both stylesheets
  are regular files), an error it throws is an engine error or a read error, never the
  not-found error.
\<close>

theorem directory_is_not_NotFound:
  assumes dir: "files w p = Some Directory" and arg: "a ''filePath'' = Some (JStr p)"
  shows "handleAnalyzeContent (Some a) w =
           (Inl (FsError EISDIR p),
            record_call (FsReadFileSync p) (record_call (FsExistsSync (JStr p)) w)) \<and>
         (case fst (handlePreviewFile e (Some a) w) of
            Inl err \<Rightarrow> engine_or_read_error err | Inr res \<Rightarrow> True) \<and>
         (pageCssPath p = p \<or> \<not> is_file (files w (mainCssPath p))
            \<or> \<not> is_file (files w (pageCssPath p)) \<longrightarrow>
          (\<exists>err w'. handlePreviewFile e (Some a) w = (Inl err, w') \<and>
             navigation_or_read_error err \<and> files w' = files w \<and>
             calls w' = calls w @ new_calls w w' \<and> filter is_write (new_calls w w') = []))"
proof -
  have A: "handleAnalyzeContent (Some a) w =
           (Inl (FsError EISDIR p),
            record_call (FsReadFileSync p) (record_call (FsExistsSync (JStr p)) w))"
    using assms
    by (simp add: handleAnalyzeContent_def arg_def fs_existsSync_def fs_readFileSync_def
        and_then_def record_call_def)
  have B: "case fst (handlePreviewFile e (Some a) w) of
            Inl err \<Rightarrow> engine_or_read_error err | Inr res \<Rightarrow> True"
    using preview_errors[of w p a e] assms by simp
  have C: "\<exists>err w'. handlePreviewFile e (Some a) w = (Inl err, w') \<and>
             navigation_or_read_error err \<and> files w' = files w \<and>
             calls w' = calls w @ new_calls w w' \<and> filter is_write (new_calls w w') = []"
    if h: "pageCssPath p = p \<or> \<not> is_file (files w (mainCssPath p))
            \<or> \<not> is_file (files w (pageCssPath p))"
  proof -
    have ex: "files w p \<noteq> None" using dir by simp
    have "\<not> is_file (files w (pageCssPath p))" if "pageCssPath p = p"
      using that dir by simp
    with h have "\<not> is_file (files w (mainCssPath p)) \<or> \<not> is_file (files w (pageCssPath p))"
      by blast
    with preview_fails_quietly[of w p a e] ex arg show ?thesis
      by (auto simp: quiet_def)
  qed
  from A B C show ?thesis by blast
qed

text \<open>C9 as amended, on the directory \<^verbatim>\<open>/site/pages\<close> of the example site: the analysis
  throws \<^verbatim>\<open>EISDIR\<close>; the stylesheet path derived for the page is the directory itself, and
  the preview fails when it reads the shared stylesheet, without a write.\<close>

theorem directory_is_not_NotFound_witness:
  "handleAnalyzeContent (Some pages_args) site_with_dir =
     (Inl (FsError EISDIR ''/site/pages''),
      record_call (FsReadFileSync ''/site/pages'')
        (record_call (FsExistsSync (JStr ''/site/pages'')) site_with_dir)) \<and>
   pageCssPath ''/site/pages'' = ''/site/pages'' \<and>
   fst (handlePreviewFile engine_ok (Some pages_args) site_with_dir) =
     Inl (FsError ENOENT ''/style.css'') \<and>
   files (snd (handlePreviewFile engine_ok (Some pages_args) site_with_dir)) =
     files site_with_dir \<and>
   filter is_write (new_calls site_with_dir
     (snd (handlePreviewFile engine_ok (Some pages_args) site_with_dir))) = []"
proof -
  have dir: "files site_with_dir ''/site/pages'' = Some Directory"
    by (simp add: site_with_dir_def)
  have arg: "pages_args ''filePath'' = Some (JStr ''/site/pages'')"
    by (simp add: pages_args_def)
  have pc: "pageCssPath ''/site/pages'' = ''/site/pages''" by (simp add: path_defs)
  have ev: "fst (handlePreviewFile engine_ok (Some pages_args) site_with_dir) =
     Inl (FsError ENOENT ''/style.css'')"
    by (simp add: run_defs path_defs site_with_dir_def site_def engine_ok_def pages_args_def)
  from directory_is_not_NotFound[of site_with_dir "''/site/pages''" pages_args engine_ok]
       dir arg pc ev
  show ?thesis by auto
qed

text \<open>
  C9 as stated fails: a directory named \<^verbatim>\<open>gallery.html\<close> whose two stylesheets exist is
  previewed with success when the engine accepts every call; the preview does not fail
  later.
\<close>

theorem directory_preview_succeeds:
  "files gallery_site ''/site/pages/gallery.html'' = Some Directory \<and>
   fst (handlePreviewFile engine_ok (Some gallery_args) gallery_site) =
     Inr [TextBlock (preview_text
       ''/Users/seanivore/Documents/Cline/MCP/mcp-file-preview/screenshots/gallery_1700000000123.png''
       (js ''<html></html>''))]"
  by (simp add: run_defs path_defs gallery_site_def site_def engine_ok_def gallery_args_def)

section \<open>The page is not always closed\<close>

text \<open>
  C5 (code at the failing input). \<^verbatim>\<open>page.setViewport\<close> is called before the \<^verbatim>\<open>try\<close> block
  (line 110; the block starts at line 112). With a width of \<open>-1\<close> the engine rejects the
  call, the handler throws, and the page just opened stays open: no \<^verbatim>\<open>page.close\<close> is
  called. The engine handle stays in \<^verbatim>\<open>this.browser\<close>.
\<close>

theorem viewport_failure_leaks_page:
  "fst (handlePreviewFile engine_strict (Some negative_width_args) site) =
     Inl (PuppeteerError (PageSetViewport 1 (JNum (- 1)) (JNum 768))) \<and>
   open_pages (snd (handlePreviewFile engine_strict (Some negative_width_args) site)) = [1] \<and>
   this_browser (snd (handlePreviewFile engine_strict (Some negative_width_args) site)) = Some 0 \<and>
   calls (snd (handlePreviewFile engine_strict (Some negative_width_args) site)) =
     [FsExistsSync (JStr ''/site/pages/index.html''), PuppeteerLaunch, BrowserNewPage 0,
      PageSetViewport 1 (JNum (- 1)) (JNum 768)]"
  by (simp add: run_defs site_def engine_strict_def engine_ok_def negative_width_args_def)

section \<open>The stylesheet of the page\<close>

text \<open>
  C6 (code at the failing input). For \<^verbatim>\<open>/site/pages/index.html.html\<close> the code replaces
  the first \<^verbatim>\<open>.html\<close> of the file name, not the extension: it reads
  \<^verbatim>\<open>/site/pages/index.css.html\<close>, where the extension replaced gives
  \<^verbatim>\<open>/site/pages/index.html.css\<close>. That file exists on the example site, and the preview
  still fails with \<^verbatim>\<open>ENOENT\<close>.
\<close>

theorem first_occurrence_replaced:
  "pageCssPath ''/site/pages/index.html.html'' = ''/site/pages/index.css.html'' \<and>
   spec_pageCssPath ''/site/pages/index.html.html'' = ''/site/pages/index.html.css'' \<and>
   fst (handlePreviewFile engine_ok (Some double_ext_args) double_ext_site) =
     Inl (FsError ENOENT ''/site/pages/index.css.html'')"
  by (simp add: run_defs path_defs double_ext_site_def site_def engine_ok_def double_ext_args_def)

section \<open>Acquiring the browser\<close>

text \<open>
  A call of \<^verbatim>\<open>initBrowser\<close> that no other call overlaps is the two parts of the function run
  one after the other.
\<close>

theorem initBrowser_alone:
  "run_schedule e [0, 0] ([NotStarted], w) =
     ([Returned (fst (initBrowser e w))], snd (initBrowser e w))"
  by (cases "this_browser w")
     (auto simp: initBrowser_begin_def initBrowser_resume_def initBrowser_def puppeteer_launch_def
       split: prod.splits sum.splits)

text \<open>
  Calls one after the other: once a call has returned a handle, the next call returns the
  same handle and changes nothing, whatever the engine would do with a launch; the call
  that launched added one engine, and a call that found a handle changed nothing.
\<close>

theorem sequential_acquire_reuses_handle:
  "initBrowser e w = (Inr b, w1) \<Longrightarrow>
   initBrowser e' w1 = (Inr b, w1) \<and> this_browser w1 = Some b \<and>
   (this_browser w = None \<longrightarrow> engines w1 = engines w @ [b]) \<and>
   (this_browser w \<noteq> None \<longrightarrow> w1 = w)"
  by (auto simp: initBrowser_def puppeteer_launch_def launch_settle_def record_call_def
      split: option.splits if_splits)

theorem sequential_acquire_reuses_handle_witness:
  "initBrowser engine_ok site =
     (Inr 0, site\<lparr>this_browser := Some 0, engines := [0], next_handle := 1,
                   calls := [PuppeteerLaunch]\<rparr>) \<and>
   initBrowser engine_timeout
       (site\<lparr>this_browser := Some 0, engines := [0], next_handle := 1, calls := [PuppeteerLaunch]\<rparr>) =
     (Inr 0, site\<lparr>this_browser := Some 0, engines := [0], next_handle := 1,
                   calls := [PuppeteerLaunch]\<rparr>)"
proof -
  have a: "initBrowser engine_ok site =
     (Inr 0, site\<lparr>this_browser := Some 0, engines := [0], next_handle := 1,
                   calls := [PuppeteerLaunch]\<rparr>)"
    by (simp add: initBrowser_def puppeteer_launch_def launch_settle_def record_call_def
        site_def engine_ok_def)
  from sequential_acquire_reuses_handle[OF a, of engine_timeout] a show ?thesis by simp
qed

text \<open>
  C7 (code at the failing input). Two calls of \<^verbatim>\<open>initBrowser\<close> on a fresh server, the
  second started while the first waits for its launch: both find \<^verbatim>\<open>this.browser\<close> empty,
  both launch an engine, the calls return different handles, two engines run, and
  \<^verbatim>\<open>this.browser\<close> keeps the second only.
\<close>

theorem overlapping_acquires_launch_twice:
  "run_schedule engine_ok [0, 1, 0, 1] ([NotStarted, NotStarted], site) =
     ([Returned (Inr 0), Returned (Inr 1)],
      site\<lparr>this_browser := Some 1, engines := [0, 1], next_handle := 2,
            calls := [PuppeteerLaunch, PuppeteerLaunch]\<rparr>)"
  by (simp add: initBrowser_begin_def initBrowser_resume_def launch_settle_def record_call_def
      site_def engine_ok_def)

section \<open>The analysis changes nothing\<close>

text \<open>
  C8. Whatever \<^verbatim>\<open>handleAnalyzeContent\<close> returns, the state after it is the state before it
  with calls added; the added calls are \<^verbatim>\<open>fs.existsSync\<close> and \<^verbatim>\<open>fs.readFileSync\<close> only (no
  write, no engine call, no change of \<^verbatim>\<open>this.browser\<close>); and every call with the same
  arguments in a state where the named file is the same returns the same result, the
  state left by the call itself included.
\<close>

theorem analyze_is_pure:
  assumes "handleAnalyzeContent ao w = (r, w')"
  shows "w' = w\<lparr>calls := calls w @ new_calls w w'\<rparr> \<and> list_all is_fs_read (new_calls w w') \<and>
         (\<forall>v. same_target ao v w \<longrightarrow> fst (handleAnalyzeContent ao v) = r)"
proof (cases ao)
  case None
  with assms show ?thesis
    by (auto simp: handleAnalyzeContent_def new_calls_def same_target_def)
next
  case (Some a)
  show ?thesis
  proof (cases "arg a ''filePath''")
    case (JStr p)
    with assms Some show ?thesis
      by (cases "files w p")
         (auto simp: handleAnalyzeContent_def fs_existsSync_def fs_readFileSync_def record_call_def
            and_then_def return_def new_calls_def same_target_def
            split: node.splits)
  qed (use assms Some in \<open>auto simp: handleAnalyzeContent_def fs_existsSync_def record_call_def
            new_calls_def same_target_def\<close>)
qed

text \<open>C8 on the example site: the two calls made, and the same result from a second
  call.\<close>

theorem analyze_is_pure_witness:
  "snd (handleAnalyzeContent (Some index_args) site) =
     site\<lparr>calls := [FsExistsSync (JStr ''/site/pages/index.html''),
                     FsReadFileSync ''/site/pages/index.html'']\<rparr> \<and>
   fst (handleAnalyzeContent (Some index_args) (snd (handleAnalyzeContent (Some index_args) site))) =
     fst (handleAnalyzeContent (Some index_args) site)"
proof -
  let ?X = "handleAnalyzeContent (Some index_args) site"
  have X: "?X = (fst ?X, snd ?X)" by simp
  have s: "snd ?X = site\<lparr>calls := [FsExistsSync (JStr ''/site/pages/index.html''),
                     FsReadFileSync ''/site/pages/index.html'']\<rparr>"
    by (simp add: run_defs site_def index_args_def)
  have "same_target (Some index_args) (snd ?X) site"
    unfolding s by (simp add: same_target_def index_args_def arg_def)
  with analyze_is_pure[OF X] s show ?thesis by blast
qed

section \<open>What a successful preview writes\<close>

lemma split_slash_nonempty: "split_slash s \<noteq> []"
  by (induction s) (auto split: list.splits)

lemma split_slash_plain: "CHR ''/'' \<notin> set n \<Longrightarrow> split_slash n = [n]"
  by (induction n) auto

lemma split_slash_append:
  "split_slash (a @ CHR ''/'' # b) = split_slash a @ split_slash b"
proof (induction a)
  case Nil
  then show ?case by simp
next
  case (Cons c cs)
  obtain s ss where "split_slash cs = s # ss"
    using split_slash_nonempty[of cs] by (cases "split_slash cs") auto
  with Cons show ?case by simp
qed

lemma norm_segments_snoc:
  "n \<noteq> [] \<Longrightarrow> n \<noteq> ''.'' \<Longrightarrow> n \<noteq> ''..'' \<Longrightarrow>
   norm_segments climb res (xs @ [n]) = norm_segments climb res xs @ [n]"
  by (induction xs arbitrary: res) auto

lemma join_slash_snoc:
  "join_slash (R @ [n]) = (if R = [] then n else join_slash R @ CHR ''/'' # n)"
  by (induction R rule: join_slash.induct) auto

lemma path_basename_tail:
  assumes "CHR ''/'' \<notin> set n" and "n \<noteq> []" and "x = [] \<or> last x = CHR ''/''"
  shows "path_basename (x @ n) = n"
proof -
  have hd: "hd (rev n) \<noteq> CHR ''/''" using assms(1,2) by (metis hd_rev last_in_set)
  have d: "dropWhile (\<lambda>c. c = CHR ''/'') (rev n @ rev x) = rev n @ rev x"
    using assms(2) hd by (cases "rev n") auto
  have t: "takeWhile (\<lambda>c. c \<noteq> CHR ''/'') (rev x) = []"
    using assms(3) by (cases x rule: rev_cases) auto
  have "takeWhile (\<lambda>c. c \<noteq> CHR ''/'') (rev n @ rev x) = rev n"
    using assms(1) t by (subst takeWhile_append2) auto
  with d show ?thesis by (simp add: path_basename_def)
qed

lemma path_basename_normalize_tail:
  assumes "ordinary n" and "x = [] \<or> last x = CHR ''/''"
  shows "path_basename (path_normalize (x @ n)) = n"
proof -
  from assms have n: "n \<noteq> []" "n \<noteq> ''.''" "n \<noteq> ''..''" "CHR ''/'' \<notin> set n"
    by (auto simp: ordinary_def)
  define j where "j = x @ n"
  have jne: "j \<noteq> []" using n by (simp add: j_def)
  have lastj: "last j \<noteq> CHR ''/''" using n by (simp add: j_def) (metis last_in_set)
  obtain X where X: "split_slash j = X @ [n]"
  proof (cases "x = []")
    case True
    with n have "split_slash j = [] @ [n]" by (simp add: j_def split_slash_plain)
    then show ?thesis by (rule that)
  next
    case False
    with assms(2) obtain y where "x = y @ ''/''" by (metis append_butlast_last_id)
    with n have "split_slash j = split_slash y @ [n]"
      by (simp add: j_def split_slash_plain split_slash_append)
    then show ?thesis by (rule that)
  qed
  define R where "R = norm_segments (hd j \<noteq> CHR ''/'') [] X"
  have q: "join_slash (norm_segments (hd j \<noteq> CHR ''/'') [] (split_slash j)) =
           (if R = [] then n else join_slash R @ CHR ''/'' # n)"
    using n by (simp add: X norm_segments_snoc R_def join_slash_snoc)
  obtain z where z: "path_normalize j = z @ n" "z = [] \<or> last z = CHR ''/''"
  proof (cases "R = []")
    case True
    show ?thesis
    proof (cases "hd j = CHR ''/''")
      case True
      with \<open>R = []\<close> q jne lastj n have "path_normalize j = ''/'' @ n"
        by (simp add: path_normalize_def Let_def)
      then show ?thesis using that[of "''/''"] by simp
    next
      case False
      with \<open>R = []\<close> q jne lastj n have "path_normalize j = [] @ n"
        by (simp add: path_normalize_def Let_def)
      then show ?thesis using that[of "[]"] by simp
    qed
  next
    case False
    show ?thesis
    proof (cases "hd j = CHR ''/''")
      case True
      with \<open>R \<noteq> []\<close> q jne lastj n have "path_normalize j = (''/'' @ join_slash R @ ''/'') @ n"
        by (simp add: path_normalize_def Let_def)
      then show ?thesis using that[of "''/'' @ join_slash R @ ''/''"] by simp
    next
      case False
      with \<open>R \<noteq> []\<close> q jne lastj n have "path_normalize j = (join_slash R @ ''/'') @ n"
        by (simp add: path_normalize_def Let_def)
      then show ?thesis using that[of "join_slash R @ ''/''"] by simp
    qed
  qed
  with n show ?thesis by (simp add: j_def path_basename_tail)
qed

lemma path_basename_join_tail:
  assumes "ordinary n" and "m = [] \<or> last m = CHR ''/''"
  shows "path_basename (path_join (ps @ [m @ n])) = n"
proof -
  from assms have n: "n \<noteq> []" by (auto simp: ordinary_def)
  define qs where "qs = filter (\<lambda>a. a \<noteq> []) ps"
  define x where "x = (if qs = [] then m else join_slash qs @ CHR ''/'' # m)"
  have j: "join_slash (qs @ [m @ n]) = x @ n"
    by (simp add: x_def join_slash_snoc)
  have x: "x = [] \<or> last x = CHR ''/''" using assms(2) by (auto simp: x_def)
  have "path_join (ps @ [m @ n]) = path_normalize (x @ n)"
    using n j by (simp add: path_join_def qs_def)
  with path_basename_normalize_tail[OF assms(1) x] show ?thesis by simp
qed

lemma path_basename_join:
  assumes "ordinary n"
  shows "path_basename (path_join (ps @ [n])) = n"
  using path_basename_join_tail[OF assms, of "[]" ps] by simp

lemma last_part_split:
  "\<exists>m. s = m @ last_part s \<and> (m = [] \<or> last m = CHR ''/'')"
proof -
  define m where "m = rev (dropWhile (\<lambda>c. c \<noteq> CHR ''/'') (rev s))"
  have "rev s = takeWhile (\<lambda>c. c \<noteq> CHR ''/'') (rev s) @ dropWhile (\<lambda>c. c \<noteq> CHR ''/'') (rev s)"
    by simp
  then have "s = m @ last_part s"
    unfolding m_def last_part_def by (metis rev_append rev_rev_ident)
  moreover have "m = [] \<or> last m = CHR ''/''"
  proof (cases "dropWhile (\<lambda>c. c \<noteq> CHR ''/'') (rev s)")
    case Nil
    then show ?thesis by (simp add: m_def)
  next
    case (Cons c cs)
    then have "c = CHR ''/''" using hd_dropWhile[of "\<lambda>c. c \<noteq> CHR ''/''" "rev s"] by auto
    with Cons show ?thesis by (simp add: m_def)
  qed
  ultimately show ?thesis by blast
qed

lemma last_part_no_slash: "CHR ''/'' \<notin> set (last_part s)"
  by (auto simp: last_part_def dest: set_takeWhileD)

lemma last_part_plain:
  assumes "CHR ''/'' \<notin> set s"
  shows "last_part s = s"
proof -
  from assms have "\<forall>c\<in>set (rev s). c \<noteq> CHR ''/''" by auto
  then have "takeWhile (\<lambda>c. c \<noteq> CHR ''/'') (rev s) = rev s"
    by (simp only: takeWhile_eq_all_conv)
  then show ?thesis unfolding last_part_def by (metis rev_rev_ident)
qed

lemma path_basename_no_slash: "CHR ''/'' \<notin> set (path_basename p)"
proof -
  have "\<forall>c \<in> set (takeWhile (\<lambda>c. c \<noteq> CHR ''/'') xs). c \<noteq> CHR ''/''" for xs
    by (auto dest: set_takeWhileD)
  then show ?thesis by (auto simp: path_basename_def)
qed

lemma path_basename_length: "length (path_basename p) \<le> length p"
  by (simp add: path_basename_def)
     (metis (no_types, lifting) length_dropWhile_le length_rev length_takeWhile_le order_trans)

lemma ends_with_length: "ends_with s e \<Longrightarrow> e \<noteq> s \<Longrightarrow> length e < length s"
  by (auto simp: ends_with_def) (metis diff_is_0_eq drop0 le_neq_implies_less not_less)

lemma path_basename_ext_last_part:
  "length (path_basename p) \<le> length (last_part (path_basename_ext p ext)) + length ext"
proof -
  define b where "b = path_basename p"
  have nb: "CHR ''/'' \<notin> set b" by (simp add: b_def path_basename_no_slash)
  have lb: "length b \<le> length p" by (simp add: b_def path_basename_length)
  have "path_basename_ext p ext = b \<or> (path_basename_ext p ext = [] \<and> p = ext) \<or>
        path_basename_ext p ext = take (length b - length ext) b \<or>
        (ends_with ext b \<and> b \<noteq> ext)"
    unfolding path_basename_ext_def b_def[symmetric] Let_def by simp
  then consider (plain) "path_basename_ext p ext = b"
    | (self) "path_basename_ext p ext = []" "p = ext"
    | (cut) "path_basename_ext p ext = take (length b - length ext) b"
    | (partial) "ends_with ext b" "b \<noteq> ext"
    by blast
  then show ?thesis
  proof cases
    case plain
    with nb show ?thesis by (simp add: last_part_plain b_def)
  next
    case self
    with lb show ?thesis by (simp add: b_def)
  next
    case cut
    have "CHR ''/'' \<notin> set (take (length b - length ext) b)"
      using nb by (auto dest: in_set_takeD)
    with cut show ?thesis by (simp add: last_part_plain b_def)
  next
    case partial
    then have "length b < length ext" by (rule ends_with_length)
    then show ?thesis by (simp add: b_def)
  qed
qed

lemma digit_no_slash: "k < 10 \<Longrightarrow> CHR ''/'' \<noteq> ''0123456789'' ! k"
proof -
  assume "k < 10"
  then have "''0123456789'' ! k \<in> set ''0123456789''" by (intro nth_mem) simp
  then show ?thesis by auto
qed

lemma show_nat_no_slash: "CHR ''/'' \<notin> set (show_nat n)"
proof (induction n rule: show_nat.induct)
  case (1 n)
  show ?case
  proof (cases "n < 10")
    case True
    then show ?thesis by (subst show_nat.simps) (simp add: digit_no_slash)
  next
    case False
    with 1 show ?thesis by (subst show_nat.simps) (simp add: digit_no_slash)
  qed
qed

lemma replace_first_no_slash:
  "CHR ''/'' \<notin> set s \<Longrightarrow> CHR ''/'' \<notin> set (replace_first ''.html'' ''.css'' s)"
  by (induction s) (auto dest: in_set_dropD)

lemma replace_first_length:
  "pat \<noteq> [] \<Longrightarrow> length rep \<le> length pat \<Longrightarrow> length (replace_first pat rep s) \<le> length s"
proof (induction s)
  case Nil
  then show ?case by simp
next
  case (Cons c cs)
  show ?case
  proof (cases "take (length pat) (c # cs) = pat")
    case True
    then have "length (take (length pat) (c # cs)) = length pat" by (rule arg_cong)
    then have "length pat \<le> length (c # cs)" unfolding length_take by linarith
    with True Cons.prems show ?thesis by simp
  next
    case False
    with Cons show ?thesis by simp
  qed
qed

lemma replace_first_short:
  "pat \<noteq> [] \<Longrightarrow> length (replace_first pat rep s) < length rep \<Longrightarrow> replace_first pat rep s = s"
  by (induction s) (auto split: if_splits)

lemma and_then_InrE:
  assumes "and_then m f w = (Inr y, w')"
  obtains x w1 where "m w = (Inr x, w1)" "f x w1 = (Inr y, w')"
  using assms by (auto simp: and_then_def split: prod.splits sum.splits)

lemma try_finally_InrE:
  assumes "try_finally body cleanup w = (Inr y, w')"
  obtains w1 where "body w = (Inr y, w1)" "cleanup w1 = (Inr (), w')"
  using assms by (auto simp: try_finally_def split: prod.splits sum.splits)

lemma page_call_InrE:
  assumes "page_call e c w = (Inr u, w1)"
  obtains "\<not> rejects e c" "w1 = record_call c w"
  using assms by (auto simp: page_call_def split: if_splits)

lemma readFile_InrE:
  assumes "fs_readFileSync p w = (Inr c, w1)"
  obtains "files w p = Some (File c)" "w1 = record_call (FsReadFileSync p) w"
  using assms by (auto simp: fs_readFileSync_def split: option.splits node.splits)

lemma screenshot_InrE:
  assumes "page_screenshot e pg p w = (Inr u, w1)"
  obtains "w1 = (record_call (PageScreenshot pg p) w)\<lparr>files := (files w)(p \<mapsto> File (screenshot_data e))\<rparr>"
  using assms by (auto simp: page_screenshot_def record_call_def Let_def split: if_splits)

lemma content_InrE:
  assumes "page_content e pg w = (Inr c, w1)"
  obtains "c = rendered e" "w1 = record_call (PageContent pg) w"
  using assms by (auto simp: page_content_def split: if_splits)

lemma close_InrE:
  assumes "page_close e pg w = (Inr u, w1)"
  obtains "w1 = (record_call (PageClose pg) w)\<lparr>open_pages := filter (\<lambda>q. q \<noteq> pg) (open_pages w)\<rparr>"
  using assms by (auto simp: page_close_def record_call_def Let_def split: if_splits)

lemma newPage_InrE:
  assumes "browser_newPage e b w = (Inr pg, w1)"
  obtains "w1 = (record_call (BrowserNewPage b) w)\<lparr>open_pages := open_pages w @ [pg],
     next_handle := Suc pg\<rparr>"
  using assms by (auto simp: browser_newPage_def record_call_def Let_def split: if_splits)

lemma initBrowser_InrE:
  assumes "initBrowser e w = (Inr b, w1)"
  obtains "quiet w w1"
  using assms quiet_on_initBrowser[of "files w" e] by (auto simp: quiet_on_def)

lemma return_InrE:
  assumes "return x w = (Inr y, w1)"
  obtains "y = x" "w1 = w"
  using assms by (auto simp: return_def)

lemma mkdir_chain_effect:
  "mkdir_chain p ds fs = (r, fs') \<Longrightarrow>
   fs' q = fs q \<or> (fs q = None \<and> q \<in> set ds \<and> fs' q = Some Directory)"
proof (induction ds arbitrary: fs)
  case Nil
  then show ?case by simp
next
  case (Cons d ds)
  show ?case
  proof (cases "fs d")
    case None
    with Cons.prems have "mkdir_chain p ds (fs(d \<mapsto> Directory)) = (r, fs')" by simp
    from Cons.IH[OF this] None show ?thesis by (auto split: if_splits)
  next
    case (Some n)
    with Cons show ?thesis by (cases n) auto
  qed
qed

lemma writes_iff:
  "writes w w' ws \<longleftrightarrow> (\<exists>cs. calls w' = calls w @ cs \<and> filter is_write cs = ws)"
proof
  assume "writes w w' ws"
  then show "\<exists>cs. calls w' = calls w @ cs \<and> filter is_write cs = ws"
    unfolding writes_def by blast
next
  assume "\<exists>cs. calls w' = calls w @ cs \<and> filter is_write cs = ws"
  then obtain cs where "calls w' = calls w @ cs" "filter is_write cs = ws" by blast
  then show "writes w w' ws" by (simp add: writes_def new_calls_def)
qed

lemma writes_trans: "writes w w1 a \<Longrightarrow> writes w1 w2 b \<Longrightarrow> writes w w2 (a @ b)"
  unfolding writes_iff by auto

lemma quiet_writes: "quiet w w' \<Longrightarrow> writes w w' []"
  by (simp add: quiet_def writes_def)

lemma ensure_dir_InrE:
  assumes "(case fs_existsSync (JStr d) w of
      (ex, w1) \<Rightarrow> if ex then (Inr (), w1) else fs_mkdirSync_recursive d w1) = (Inr u, w')"
  obtains "writes w w' (if files w d = None then [FsMkdirSync d] else [])"
    "\<And>q. files w' q = files w q \<or>
        (files w d = None \<and> files w q = None \<and> q \<in> set (dirs_to d) \<and> files w' q = Some Directory)"
proof (cases "files w d")
  case None
  with assms obtain fs where m: "mkdir_chain d (dirs_to d) (files w) = (None, fs)"
    and w': "w' = record_call (FsMkdirSync d) ((record_call (FsExistsSync (JStr d)) w)\<lparr>files := fs\<rparr>)"
    by (auto simp: fs_existsSync_def fs_mkdirSync_recursive_def record_call_def
        split: prod.splits option.splits)
  have "writes w w' [FsMkdirSync d]"
    unfolding writes_iff w' by (simp add: record_call_def)
  moreover have "files w' q = files w q \<or>
        (files w d = None \<and> files w q = None \<and> q \<in> set (dirs_to d) \<and> files w' q = Some Directory)" for q
    using mkdir_chain_effect[OF m, of q] None by (simp add: w' record_call_def)
  ultimately show ?thesis using that None by simp
next
  case (Some n)
  with assms have w': "w' = record_call (FsExistsSync (JStr d)) w"
    by (auto simp: fs_existsSync_def)
  have "writes w w' []" unfolding writes_iff w' by (simp add: record_call_def)
  moreover have "files w' q = files w q" for q by (simp add: w' record_call_def)
  ultimately show ?thesis using that Some by simp
qed

lemma body_success:
  assumes "preview_body e p pg w = (Inr res, w')"
  shows "writes w w' ((if files w screenshotsDir = None then [FsMkdirSync screenshotsDir] else [])
            @ [PageScreenshot pg (screenshotPath p (clock e))]) \<and>
         files w' (screenshotPath p (clock e)) = Some (File (screenshot_data e)) \<and>
         (\<forall>q. q \<noteq> screenshotPath p (clock e) \<longrightarrow> files w' q = files w q \<or>
            (files w screenshotsDir = None \<and> files w q = None \<and> q \<in> set (dirs_to screenshotsDir)
             \<and> files w' q = Some Directory)) \<and>
         (\<exists>c1 c2. files w (mainCssPath p) = Some (File c1) \<and> files w (pageCssPath p) = Some (File c2))"
proof -
  from assms obtain w3 c1 w4 c2 w5 w8 w9 w10 content where
    s3: "and_then (page_call e (PageSetBypassCSP pg)) (\<lambda>_.
         and_then (page_call e (PageSetExtraHTTPHeaders pg)) (\<lambda>_.
         page_call e (PageGoto pg (''file://'' @ p)))) w = (Inr (), w3)"
    and r1: "fs_readFileSync (mainCssPath p) w3 = (Inr c1, w4)"
    and r2: "fs_readFileSync (pageCssPath p) w4 = (Inr c2, w5)"
    and s8: "and_then (page_call e (PageAddStyleTag pg c1)) (\<lambda>_.
         and_then (page_call e (PageAddStyleTag pg c2)) (\<lambda>_.
         page_call e (PageEvaluate pg))) w5 = (Inr (), w8)"
    and d: "(case fs_existsSync (JStr screenshotsDir) w8 of
      (ex, w1) \<Rightarrow> if ex then (Inr (), w1) else fs_mkdirSync_recursive screenshotsDir w1) = (Inr (), w9)"
    and sh: "page_screenshot e pg (screenshotPath p (clock e)) w9 = (Inr (), w10)"
    and ct: "page_content e pg w10 = (Inr content, w')"
    unfolding preview_body_def
    by (auto elim!: and_then_InrE return_InrE simp: and_then_def split: prod.splits sum.splits)
  let ?shot = "screenshotPath p (clock e)"
  have "quiet_on (files w) (and_then (page_call e (PageSetBypassCSP pg)) (\<lambda>_.
         and_then (page_call e (PageSetExtraHTTPHeaders pg)) (\<lambda>_.
         page_call e (PageGoto pg (''file://'' @ p)))))"
    by (intro quiet_on_and_then quiet_on_page_call) simp_all
  with s3 have q3: "quiet w w3" by (auto simp: quiet_on_def)
  from r1 have f1: "files w3 (mainCssPath p) = Some (File c1)" and q4: "quiet w3 w4"
    by (auto elim!: readFile_InrE simp: quiet_record)
  from r2 have f2: "files w4 (pageCssPath p) = Some (File c2)" and q5: "quiet w4 w5"
    by (auto elim!: readFile_InrE simp: quiet_record)
  have "quiet_on (files w5) (and_then (page_call e (PageAddStyleTag pg c1)) (\<lambda>_.
         and_then (page_call e (PageAddStyleTag pg c2)) (\<lambda>_.
         page_call e (PageEvaluate pg))))"
    by (intro quiet_on_and_then quiet_on_page_call) simp_all
  with s8 have q8: "quiet w5 w8" by (auto simp: quiet_on_def)
  have q: "quiet w w8" using q3 q4 q5 q8 by (blast intro: quiet_trans)
  then have fw8: "files w8 = files w" by (rule quiet_files)
  from d have wd: "writes w8 w9 (if files w8 screenshotsDir = None then [FsMkdirSync screenshotsDir] else [])"
    and fd: "\<And>q. files w9 q = files w8 q \<or>
        (files w8 screenshotsDir = None \<and> files w8 q = None \<and> q \<in> set (dirs_to screenshotsDir)
         \<and> files w9 q = Some Directory)"
    by (auto elim!: ensure_dir_InrE)
  from sh have w10: "w10 = (record_call (PageScreenshot pg ?shot) w9)\<lparr>files :=
      (files w9)(?shot \<mapsto> File (screenshot_data e))\<rparr>"
    by (auto elim!: screenshot_InrE)
  then have ws: "writes w9 w10 [PageScreenshot pg ?shot]"
    unfolding writes_iff by (simp add: record_call_def)
  from ct have w': "w' = record_call (PageContent pg) w10" by (auto elim!: content_InrE)
  then have wc: "writes w10 w' []" unfolding writes_iff by (simp add: record_call_def)
  have "writes w w' ([] @ (if files w8 screenshotsDir = None then [FsMkdirSync screenshotsDir] else [])
      @ [PageScreenshot pg ?shot] @ [])"
    by (intro writes_trans[OF quiet_writes[OF q]] writes_trans[OF wd] writes_trans[OF ws] wc)
  then have A: "writes w w' ((if files w screenshotsDir = None then [FsMkdirSync screenshotsDir] else [])
            @ [PageScreenshot pg ?shot])" by (simp add: fw8)
  have B: "files w' ?shot = Some (File (screenshot_data e))"
    by (simp add: w' w10 record_call_def)
  have C: "files w' q = files w q \<or>
            (files w screenshotsDir = None \<and> files w q = None \<and> q \<in> set (dirs_to screenshotsDir)
             \<and> files w' q = Some Directory)" if "q \<noteq> ?shot" for q
    using fd[of q] that by (simp add: w' w10 record_call_def fw8)
  have D: "\<exists>c1 c2. files w (mainCssPath p) = Some (File c1) \<and> files w (pageCssPath p) = Some (File c2)"
    using f1 f2 quiet_files[OF q3] quiet_files[OF q4] by simp
  from A B C D show ?thesis by blast
qed

lemma pipeline_success:
  assumes "preview_pipeline e a p w = (Inr res, w')"
  shows "\<exists>pg. writes w w' ((if files w screenshotsDir = None then [FsMkdirSync screenshotsDir] else [])
            @ [PageScreenshot pg (screenshotPath p (clock e))]) \<and>
         files w' (screenshotPath p (clock e)) = Some (File (screenshot_data e)) \<and>
         (\<forall>q. q \<noteq> screenshotPath p (clock e) \<longrightarrow> files w' q = files w q \<or>
            (files w screenshotsDir = None \<and> files w q = None \<and> q \<in> set (dirs_to screenshotsDir)
             \<and> files w' q = Some Directory)) \<and>
         (\<exists>c1 c2. files w (mainCssPath p) = Some (File c1) \<and> files w (pageCssPath p) = Some (File c2))"
proof -
  from assms obtain b w2 pg w3 u w4 w5 where
    i: "initBrowser e w = (Inr b, w2)"
    and n: "browser_newPage e b w2 = (Inr pg, w3)"
    and v: "page_call e (PageSetViewport pg (with_default (arg a ''width'') (JNum 1024))
                 (with_default (arg a ''height'') (JNum 768))) w3 = (Inr u, w4)"
    and bd: "preview_body e p pg w4 = (Inr res, w5)"
    and cl: "page_close e pg w5 = (Inr (), w')"
    unfolding preview_pipeline_def
    by (elim and_then_InrE try_finally_InrE) blast
  have q2: "quiet w w2" using i quiet_on_initBrowser[of "files w" e] by (auto simp: quiet_on_def)
  have q3: "quiet w2 w3" using n quiet_on_newPage[of "files w2" e b] by (auto simp: quiet_on_def)
  have q4: "quiet w3 w4" using v by (auto elim!: page_call_InrE simp: quiet_record)
  have q: "quiet w w4" using q2 q3 q4 by (blast intro: quiet_trans)
  then have f4: "files w4 = files w" by (rule quiet_files)
  have q5: "quiet w5 w'" using cl quiet_on_close[of "files w5" e pg] by (auto simp: quiet_on_def)
  then have f5: "files w' = files w5" by (rule quiet_files)
  let ?shot = "screenshotPath p (clock e)"
  let ?ws = "(if files w screenshotsDir = None then [FsMkdirSync screenshotsDir] else [])
            @ [PageScreenshot pg ?shot]"
  from body_success[OF bd] have
    A: "writes w4 w5 ?ws"
    and B: "files w5 ?shot = Some (File (screenshot_data e))"
    and C: "\<forall>q. q \<noteq> ?shot \<longrightarrow> files w5 q = files w q \<or>
            (files w screenshotsDir = None \<and> files w q = None \<and> q \<in> set (dirs_to screenshotsDir)
             \<and> files w5 q = Some Directory)"
    and D: "\<exists>c1 c2. files w (mainCssPath p) = Some (File c1) \<and> files w (pageCssPath p) = Some (File c2)"
    unfolding f4 by blast+
  have "writes w w' ([] @ ?ws @ [])"
    by (intro writes_trans[OF quiet_writes[OF q]] writes_trans[OF A] quiet_writes[OF q5])
  then have "writes w w' ?ws" by simp
  with B C D f5 show ?thesis by auto
qed

lemma screenshotPath_basename:
  "path_basename (screenshotPath p now) =
     last_part (path_basename_ext p ''.html'') @ ''_'' @ show_nat now @ ''.png''"
proof -
  define t where "t = ''_'' @ show_nat now @ ''.png''"
  define B where "B = path_basename_ext p ''.html''"
  define L where "L = last_part B"
  have t: "CHR ''/'' \<notin> set t" using show_nat_no_slash[of now] by (simp add: t_def)
  have tne: "t \<noteq> []" by (simp add: t_def)
  obtain m where m: "B = m @ L" "m = [] \<or> last m = CHR ''/''"
    using last_part_split[of B] unfolding L_def by blast
  have "CHR ''/'' \<notin> set L" unfolding L_def by (rule last_part_no_slash)
  moreover have "L @ t \<noteq> ''.''" "L @ t \<noteq> ''..''"
    by (auto simp: t_def append_eq_Cons_conv)
  ultimately have o: "ordinary (L @ t)" using t tne by (simp add: ordinary_def)
  have "screenshotPath p now = path_join [screenshotsDir, B @ t]"
    by (simp add: screenshotPath_def screenshotName_def B_def t_def)
  also have "B @ t = m @ (L @ t)" using m(1) by simp
  finally have "screenshotPath p now = path_join ([screenshotsDir] @ [m @ (L @ t)])" by simp
  with path_basename_join_tail[OF o m(2), of "[screenshotsDir]"]
  have "path_basename (screenshotPath p now) = L @ t" by simp
  then show ?thesis by (simp add: L_def B_def t_def)
qed

lemma screenshotPath_basename_length:
  "length (path_basename p) < length (path_basename (screenshotPath p now))"
proof -
  have "show_nat now \<noteq> []" by (subst show_nat.simps) simp
  then have "1 \<le> length (show_nat now)" by (cases "show_nat now") auto
  moreover have "length (path_basename p)
      \<le> length (last_part (path_basename_ext p ''.html'')) + 5"
    using path_basename_ext_last_part[of p "''.html''"] by simp
  ultimately show ?thesis by (simp add: screenshotPath_basename)
qed

lemma last_screenshotPath_basename: "last (path_basename (screenshotPath p now)) = CHR ''g''"
  by (simp add: screenshotPath_basename)

lemma filePath_not_screenshot: "p \<noteq> screenshotPath p now"
  using screenshotPath_basename_length[of p now] by auto

lemma mainCss_not_screenshot: "mainCssPath p \<noteq> screenshotPath q now"
proof
  assume eq: "mainCssPath p = screenshotPath q now"
  have "ordinary ''style.css''" by (simp add: ordinary_def)
  from path_basename_join[OF this, of "[path_dirname p, ''..'']"]
  have "path_basename (mainCssPath p) = ''style.css''" by (simp add: mainCssPath_def)
  with eq have "path_basename (screenshotPath q now) = ''style.css''" by simp
  then have "last (path_basename (screenshotPath q now)) = CHR ''s''" by simp
  then show False by (simp add: last_screenshotPath_basename)
qed

lemma pageCss_not_screenshot:
  assumes "path_basename p \<notin> {[], ''.'', ''..''}"
  shows "pageCssPath p \<noteq> screenshotPath p now"
proof
  assume eq: "pageCssPath p = screenshotPath p now"
  define r where "r = replace_first ''.html'' ''.css'' (path_basename p)"
  have len: "length r \<le> length (path_basename p)"
    unfolding r_def by (rule replace_first_length) simp_all
  have "ordinary r"
  proof -
    have ns: "CHR ''/'' \<notin> set r"
      unfolding r_def by (rule replace_first_no_slash) (rule path_basename_no_slash)
    have "r \<notin> {[], ''.'', ''..''}"
    proof
      assume "r \<in> {[], ''.'', ''..''}"
      then have "length r < length ''.css''" by auto
      then have "r = path_basename p" unfolding r_def by (intro replace_first_short) simp_all
      with \<open>r \<in> {[], ''.'', ''..''}\<close> assms show False by simp
    qed
    with ns show ?thesis by (auto simp: ordinary_def)
  qed
  from path_basename_join[OF this, of "[path_dirname p]"]
  have "path_basename (pageCssPath p) = r" by (simp add: pageCssPath_def r_def)
  with eq have "length r = length (path_basename (screenshotPath p now))" by simp
  with len screenshotPath_basename_length[of p now] show False by simp
qed

text \<open>
  C10. For every successful call of \<^verbatim>\<open>handlePreviewFile\<close>: the writing calls are the
  \<^verbatim>\<open>mkdirSync\<close> of the screenshots directory, made exactly when the directory is absent,
  and one \<^verbatim>\<open>page.screenshot\<close> to the screenshot path; the screenshot path holds the image
  afterwards; a path whose entry changed is the screenshot path or a directory on the
  way to the screenshots directory that was absent; both stylesheets were files and were
  read; and the input file and both stylesheets are afterwards what they were before.
  (For the stylesheet of the page the input path has to end in a file name: a path ending
  in \<^verbatim>\<open>.\<close> or \<^verbatim>\<open>..\<close> names a directory, which a file system in which the call succeeds
  does not have at a path it reads as a file.)
\<close>

theorem preview_success_frame:
  assumes run: "handlePreviewFile e (Some a) w = (Inr res, w')"
    and arg: "a ''filePath'' = Some (JStr p)"
  shows "(\<exists>pg. filter is_write (new_calls w w') =
            (if files w screenshotsDir = None then [FsMkdirSync screenshotsDir] else [])
            @ [PageScreenshot pg (screenshotPath p (clock e))]) \<and>
         calls w' = calls w @ new_calls w w' \<and>
         files w' (screenshotPath p (clock e)) = Some (File (screenshot_data e)) \<and>
         (\<forall>q. files w' q \<noteq> files w q \<longrightarrow>
            q = screenshotPath p (clock e) \<or>
            (files w screenshotsDir = None \<and> files w q = None \<and> q \<in> set (dirs_to screenshotsDir)
             \<and> files w' q = Some Directory)) \<and>
         (\<exists>c1 c2. files w (mainCssPath p) = Some (File c1) \<and> files w (pageCssPath p) = Some (File c2)) \<and>
         files w' p = files w p \<and>
         files w' (mainCssPath p) = files w (mainCssPath p) \<and>
         (path_basename p \<notin> {[], ''.'', ''..''} \<longrightarrow>
            files w' (pageCssPath p) = files w (pageCssPath p))"
proof -
  let ?w1 = "record_call (FsExistsSync (JStr p)) w"
  let ?shot = "screenshotPath p (clock e)"
  have ex: "files w p \<noteq> None"
  proof
    assume "files w p = None"
    with run arg show False by (simp add: handlePreviewFile_def arg_def fs_existsSync_def)
  qed
  with run arg have "preview_pipeline e a p ?w1 = (Inr res, w')"
    using preview_after_check[of w p a e] by simp
  from pipeline_success[OF this] obtain pg where
    W: "writes ?w1 w' ((if files w screenshotsDir = None then [FsMkdirSync screenshotsDir] else [])
            @ [PageScreenshot pg ?shot])"
    and S: "files w' ?shot = Some (File (screenshot_data e))"
    and C: "\<And>q. q \<noteq> ?shot \<Longrightarrow> files w' q = files w q \<or>
            (files w screenshotsDir = None \<and> files w q = None \<and> q \<in> set (dirs_to screenshotsDir)
             \<and> files w' q = Some Directory)"
    and D: "\<exists>c1 c2. files w (mainCssPath p) = Some (File c1) \<and> files w (pageCssPath p) = Some (File c2)"
    by (auto simp: record_call_def)
  have "writes w ?w1 []" unfolding writes_iff by (simp add: record_call_def)
  from writes_trans[OF this W]
  have W': "writes w w' ((if files w screenshotsDir = None then [FsMkdirSync screenshotsDir] else [])
            @ [PageScreenshot pg ?shot])" by simp
  have keep: "files w' q = files w q" if "q \<noteq> ?shot" "files w q \<noteq> None" for q
    using C[OF that(1)] that(2) by auto
  have P: "files w' p = files w p"
    using keep[OF filePath_not_screenshot ex] .
  have M: "files w' (mainCssPath p) = files w (mainCssPath p)"
    using keep[OF mainCss_not_screenshot] D by auto
  have Q: "files w' (pageCssPath p) = files w (pageCssPath p)"
    if "path_basename p \<notin> {[], ''.'', ''..''}"
    using keep[OF pageCss_not_screenshot[OF that]] D by auto
  from W' S C D P M Q show ?thesis unfolding writes_def by blast
qed

text \<open>C10 on the example site: after the preview the page and its two stylesheets
  are unchanged and the image is at the screenshot path.\<close>

theorem preview_success_frame_witness:
  "files (snd (handlePreviewFile engine_ok (Some index_args) site)) ''/site/pages/index.html''
     = Some (File (js ''<h1>Hi</h1>'')) \<and>
   files (snd (handlePreviewFile engine_ok (Some index_args) site)) ''/site/style.css''
     = Some (File (js ''body {}'')) \<and>
   files (snd (handlePreviewFile engine_ok (Some index_args) site)) ''/site/pages/index.css''
     = Some (File (js ''h1 {}'')) \<and>
   files (snd (handlePreviewFile engine_ok (Some index_args) site))
     ''/Users/seanivore/Documents/Cline/MCP/mcp-file-preview/screenshots/index_1700000000123.png''
     = Some (File (js ''PNG''))"
proof -
  let ?X = "handlePreviewFile engine_ok (Some index_args) site"
  let ?p = "''/site/pages/index.html''"
  obtain res where X: "?X = (Inr res, snd ?X)"
    using preview_index_result by (metis prod.collapse)
  have a: "index_args ''filePath'' = Some (JStr ?p)" by (simp add: index_args_def)
  have b: "path_basename ?p \<notin> {[], ''.'', ''..''}" by (simp add: path_basename_def)
  from preview_success_frame[OF X a] b have
    "files (snd ?X) (screenshotPath ?p (clock engine_ok)) = Some (File (screenshot_data engine_ok))"
    "files (snd ?X) ?p = files site ?p"
    "files (snd ?X) (mainCssPath ?p) = files site (mainCssPath ?p)"
    "files (snd ?X) (pageCssPath ?p) = files site (pageCssPath ?p)"
    by blast+
  moreover have "clock engine_ok = 1700000000123" "screenshot_data engine_ok = js ''PNG''"
    by (simp_all add: engine_ok_def)
  moreover have "files site ?p = Some (File (js ''<h1>Hi</h1>''))"
    "files site ''/site/style.css'' = Some (File (js ''body {}''))"
    "files site ''/site/pages/index.css'' = Some (File (js ''h1 {}''))"
    by (simp_all add: site_def)
  ultimately show ?thesis by (simp add: index_paths)
qed

section \<open>The dispatcher and the order of the steps\<close>

text \<open>A tool name other than the two declared ones is answered with
  \<^verbatim>\<open>McpError(MethodNotFound, "Unknown tool: <name>")\<close>, and nothing else happens.\<close>

theorem unknown_tool_MethodNotFound:
  "name \<noteq> ''preview_file'' \<Longrightarrow> name \<noteq> ''analyze_content'' \<Longrightarrow>
   callTool e name ao w = (Inl (McpError MethodNotFound (''Unknown tool: '' @ name)), w)"
  by (simp add: callTool_def)

theorem unknown_tool_MethodNotFound_witness:
  "callTool engine_ok ''render'' (Some index_args) site =
     (Inl (McpError MethodNotFound ''Unknown tool: render''), site)"
  using unknown_tool_MethodNotFound[of "''render''" engine_ok "Some index_args" site] by simp

text \<open>
  The calls of a successful \<^verbatim>\<open>preview_file\<close> on the example site, in order: existence
  check, launch, new page, viewport with the defaults 1024 and 768, CSP, headers,
  navigation to the \<^verbatim>\<open>file://\<close> URL, the two stylesheets read and injected, the wait for
  the images, the screenshots directory, the screenshot, the markup, and the page closed;
  afterwards no page is open and the engine handle is kept.
\<close>

theorem preview_index_trace:
  "calls (snd (callTool engine_ok ''preview_file'' (Some index_args) site)) =
     [FsExistsSync (JStr ''/site/pages/index.html''), PuppeteerLaunch, BrowserNewPage 0,
      PageSetViewport 1 (JNum 1024) (JNum 768), PageSetBypassCSP 1, PageSetExtraHTTPHeaders 1,
      PageGoto 1 ''file:///site/pages/index.html'',
      FsReadFileSync ''/site/style.css'', FsReadFileSync ''/site/pages/index.css'',
      PageAddStyleTag 1 (js ''body {}''), PageAddStyleTag 1 (js ''h1 {}''), PageEvaluate 1,
      FsExistsSync (JStr ''/Users/seanivore/Documents/Cline/MCP/mcp-file-preview/screenshots''),
      FsMkdirSync ''/Users/seanivore/Documents/Cline/MCP/mcp-file-preview/screenshots'',
      PageScreenshot 1
        ''/Users/seanivore/Documents/Cline/MCP/mcp-file-preview/screenshots/index_1700000000123.png'',
      PageContent 1, PageClose 1] \<and>
   open_pages (snd (callTool engine_ok ''preview_file'' (Some index_args) site)) = [] \<and>
   this_browser (snd (callTool engine_ok ''preview_file'' (Some index_args) site)) = Some 0"
  by (simp add: callTool_def run_defs path_defs site_def engine_ok_def index_args_def)

text \<open>The answer of \<^verbatim>\<open>analyze_content\<close> on the example page: the JSON text of the four
  counts.\<close>

theorem analyze_example_text:
  "fst (callTool engine_ok ''analyze_content'' (Some index_args) site) =
     Inr [TextBlock (json_stringify \<lparr>headings = 1, paragraphs = 0, images = 0, links = 0\<rparr>)]"
  by (simp add: callTool_def run_defs site_def index_args_def analyzeContent_def js_def
      heading_re_def paragraph_re_def image_re_def link_re_def lits_def)

end
